theory Spec2Isabelle
  imports Complex_Main
begin

section \<open>Errors, failures and the file system seen by the collector\<close>

text \<open>
  The program is \<^verbatim>\<open>cmd/mirroring/goroutines.go\<close> (the second \<^verbatim>\<open>package main\<close> of the
  file: the quorum collector). Go strings are byte strings, so they are \<open>string\<close> here
  (a \<open>char\<close> is one byte). Go's \<open>int\<close> is the 64-bit integer of the build target
  (the image is \<^verbatim>\<open>golang:1.19.3\<close> on amd64); it is modelled as \<open>int\<close> with the range
  check written where the program converts text to numbers.
\<close>

datatype error =
    ErrNotExist | ErrPermission | ErrIO | ErrTooLong | ErrBadPattern
  | ErrSyntax | ErrRange | ErrJSON

text \<open>
  The process ends early in two ways: \<^verbatim>\<open>log.Fatalf\<close> (message and error, exit status 1)
  and a run-time panic (index out of range).
\<close>

datatype failure = Fatal string error | Panic

text \<open>
  The world outside the program. \<open>files\<close> is the working directory: the bytes of each
  file that exists. The library calls that can fail for reasons outside the program
  take their outcome from the remaining fields: what \<^verbatim>\<open>filepath.Glob\<close> returns this
  cycle, whether opening a path fails (read-only, for appending, for truncating),
  whether a \<^verbatim>\<open>bufio.Scanner\<close> on a path stops with an error (after how many tokens),
  whether \<^verbatim>\<open>ioutil.ReadFile\<close> meets a read error, whether closing or writing fails.
\<close>

record world =
  globResult :: "error + string list"
  files :: "string \<Rightarrow> string option"
  openFault :: "string \<Rightarrow> error option"
  scanFault :: "string \<Rightarrow> (nat \<times> error) option"
  readFault :: "string \<Rightarrow> error option"
  closeFault :: "string \<Rightarrow> error option"
  appendFault :: "string \<Rightarrow> error option"
  truncFault :: "string \<Rightarrow> error option"
  writeFault :: "string \<Rightarrow> error option"

definition AcceptedChptFile :: string where
  "AcceptedChptFile = ''accepted_chpt.txt''"

definition MonitorList :: string where
  "MonitorList = ''monitor_list.json''"

subsection \<open>\<^verbatim>\<open>bufio.Scanner\<close> with the default split function \<^verbatim>\<open>ScanLines\<close>\<close>

definition LF :: char where "LF = CHR 0x0A"
definition CR :: char where "CR = CHR 0x0D"

text \<open>\<^verbatim>\<open>dropCR\<close>: one trailing carriage return is removed from a token.\<close>

definition dropCR :: "string \<Rightarrow> string" where
  "dropCR dat = (if dat \<noteq> [] \<and> last dat = CR then butlast dat else dat)"

text \<open>
  \<^verbatim>\<open>ScanLines\<close> on the whole content: a token ends at each newline, the newline is not
  part of it, and a last line with no newline is a token when it is not empty.
\<close>

function scanLines :: "string \<Rightarrow> string list" where
  "scanLines [] = []"
| "scanLines (c # cs) =
     dropCR (takeWhile (\<lambda>x. x \<noteq> LF) (c # cs))
       # scanLines (drop 1 (dropWhile (\<lambda>x. x \<noteq> LF) (c # cs)))"
  by pat_completeness auto
termination
proof (relation "measure length")
  fix c :: char and cs :: string
  have "length (drop 1 (dropWhile (\<lambda>x. x \<noteq> LF) (c # cs))) \<le> length cs"
    using length_dropWhile_le [of "\<lambda>x. x \<noteq> LF" cs] by (cases "c = LF") auto
  then show "(drop 1 (dropWhile (\<lambda>x. x \<noteq> LF) (c # cs)), c # cs) \<in> measure length"
    by simp
qed simp

text \<open>
  The tokens a scanner delivers before \<^verbatim>\<open>Scan\<close> returns false, and the value of
  \<^verbatim>\<open>scanner.Err()\<close> afterwards.
\<close>

definition scanAll :: "world \<Rightarrow> string \<Rightarrow> string \<Rightarrow> string list \<times> error option" where
  "scanAll w path content =
     (case scanFault w path of
        None \<Rightarrow> (scanLines content, None)
      | Some (k, e) \<Rightarrow> (take k (scanLines content), Some e))"

text \<open>\<^verbatim>\<open>os.Open\<close>: the content to read, or the error.\<close>

definition osOpen :: "world \<Rightarrow> string \<Rightarrow> error + string" where
  "osOpen w path =
     (case files w path of
        None \<Rightarrow> Inl ErrNotExist
      | Some content \<Rightarrow> (case openFault w path of Some e \<Rightarrow> Inl e | None \<Rightarrow> Inr content))"

section \<open>Checkpoint reader\<close>

text \<open>
  The loop of \<^verbatim>\<open>readLatestCheckpoints\<close>: append the token, and when the slice is longer
  than two keep \<^verbatim>\<open>checkpoints[len(checkpoints)-2:]\<close>.
\<close>

fun readLoop :: "string list \<Rightarrow> string list \<Rightarrow> string list" where
  "readLoop checkpoints [] = checkpoints"
| "readLoop checkpoints (t # ts) =
     (let appended = checkpoints @ [t] in
      readLoop (if length appended > 2 then drop (length appended - 2) appended
                else appended) ts)"

definition readLatestCheckpoints :: "world \<Rightarrow> string \<Rightarrow> error + string list" where
  "readLatestCheckpoints w filename =
     (case osOpen w filename of
        Inl err \<Rightarrow> Inl err
      | Inr content \<Rightarrow>
          (case scanAll w filename content of
             (tokens, serr) \<Rightarrow>
               (let checkpoints = readLoop [] tokens in
                case serr of Some err \<Rightarrow> Inl err | None \<Rightarrow> Inr checkpoints)))"

section \<open>Text functions of the Go library used by the quorum evaluator\<close>

subsection \<open>\<^verbatim>\<open>strings.Split\<close>\<close>

text \<open>
  With a separator \<open>d # ds\<close> that is not empty, the text is cut at each occurrence
  of the separator found from the left, occurrences not overlapping; the result has one
  more element than there are occurrences, so it is never empty.
\<close>

fun splitOn :: "char \<Rightarrow> string \<Rightarrow> string \<Rightarrow> string \<Rightarrow> string list" where
  "splitOn d ds cur [] = [cur]"
| "splitOn d ds cur (c # cs) =
     (if c = d \<and> take (length ds) cs = ds
      then cur # splitOn d ds [] (drop (length ds) cs)
      else splitOn d ds (cur @ [c]) cs)"

text \<open>
  Both calls of the program pass a constant separator that is not empty. With the
  empty separator Go cuts after each UTF-8 sequence; that case is written bytewise.
\<close>

definition Split :: "string \<Rightarrow> string \<Rightarrow> string list" where
  "Split s sep = (case sep of [] \<Rightarrow> map (\<lambda>c. [c]) s | d # ds \<Rightarrow> splitOn d ds [] s)"

text \<open>The separator of the checkpoint fields: a backslash followed by the letter n.\<close>

definition fieldSep :: string where
  "fieldSep = [CHR 0x5C, CHR ''n'']"

subsection \<open>\<^verbatim>\<open>strings.TrimSpace\<close>\<close>

text \<open>
  The UTF-8 encodings of the code points for which \<^verbatim>\<open>unicode.IsSpace\<close> holds: tab, line
  feed, vertical tab, form feed, carriage return, space, U+0085, U+00A0, U+1680,
  U+2000 to U+200A, U+2028, U+2029, U+202F, U+205F and U+3000.
\<close>

definition spaceRunes :: "string list" where
  "spaceRunes =
     [[CHR 0x09], [CHR 0x0A], [CHR 0x0B], [CHR 0x0C], [CHR 0x0D], [CHR 0x20],
      [CHR 0xC2, CHR 0x85], [CHR 0xC2, CHR 0xA0], [CHR 0xE1, CHR 0x9A, CHR 0x80],
      [CHR 0xE2, CHR 0x80, CHR 0x80], [CHR 0xE2, CHR 0x80, CHR 0x81],
      [CHR 0xE2, CHR 0x80, CHR 0x82], [CHR 0xE2, CHR 0x80, CHR 0x83],
      [CHR 0xE2, CHR 0x80, CHR 0x84], [CHR 0xE2, CHR 0x80, CHR 0x85],
      [CHR 0xE2, CHR 0x80, CHR 0x86], [CHR 0xE2, CHR 0x80, CHR 0x87],
      [CHR 0xE2, CHR 0x80, CHR 0x88], [CHR 0xE2, CHR 0x80, CHR 0x89],
      [CHR 0xE2, CHR 0x80, CHR 0x8A], [CHR 0xE2, CHR 0x80, CHR 0xA8],
      [CHR 0xE2, CHR 0x80, CHR 0xA9], [CHR 0xE2, CHR 0x80, CHR 0xAF],
      [CHR 0xE2, CHR 0x81, CHR 0x9F], [CHR 0xE3, CHR 0x80, CHR 0x80]]"

text \<open>The number of bytes of the white-space character the text starts with, 0 if none.\<close>

definition leadingSpace :: "string \<Rightarrow> nat" where
  "leadingSpace s =
     (case filter (\<lambda>r. take (length r) s = r) spaceRunes of [] \<Rightarrow> 0 | r # _ \<Rightarrow> length r)"

definition trailingSpace :: "string \<Rightarrow> nat" where
  "trailingSpace s =
     (case filter (\<lambda>r. drop (length s - length r) s = r) spaceRunes of
        [] \<Rightarrow> 0 | r # _ \<Rightarrow> length r)"

text \<open>The trimming loops, bounded by the length of the text.\<close>

fun trimLeftLoop :: "nat \<Rightarrow> string \<Rightarrow> string" where
  "trimLeftLoop 0 s = s"
| "trimLeftLoop (Suc n) s =
     (if leadingSpace s = 0 then s else trimLeftLoop n (drop (leadingSpace s) s))"

fun trimRightLoop :: "nat \<Rightarrow> string \<Rightarrow> string" where
  "trimRightLoop 0 s = s"
| "trimRightLoop (Suc n) s =
     (if trailingSpace s = 0 then s
      else trimRightLoop n (take (length s - trailingSpace s) s))"

definition TrimSpace :: "string \<Rightarrow> string" where
  "TrimSpace s =
     (let l = trimLeftLoop (length s) s in trimRightLoop (length l) l)"

subsection \<open>\<^verbatim>\<open>strconv.ParseInt\<close> in base 10 at 64 bits, \<^verbatim>\<open>strconv.Atoi\<close>, \<^verbatim>\<open>strconv.Itoa\<close>\<close>

definition isDigit :: "char \<Rightarrow> bool" where
  "isDigit c = (48 \<le> (of_char c :: nat) \<and> (of_char c :: nat) \<le> 57)"

definition digitVal :: "char \<Rightarrow> nat" where
  "digitVal c = (of_char c :: nat) - 48"

definition maxUint64 :: nat where
  "maxUint64 = 2 ^ 64 - 1"

text \<open>
  The loop of \<^verbatim>\<open>ParseUint\<close>, byte by byte: a byte that is not a digit is a syntax
  error; a value that leaves 64 bits is a range error.
\<close>

fun parseUintLoop :: "nat \<Rightarrow> string \<Rightarrow> error + nat" where
  "parseUintLoop n [] = Inr n"
| "parseUintLoop n (c # cs) =
     (if \<not> isDigit c then Inl ErrSyntax
      else if n \<ge> maxUint64 div 10 + 1 then Inl ErrRange
      else (let n1 = n * 10 + digitVal c in
            if n1 > maxUint64 then Inl ErrRange else parseUintLoop n1 cs))"

definition ParseInt :: "string \<Rightarrow> error + int" where
  "ParseInt s =
     (case s of
        [] \<Rightarrow> Inl ErrSyntax
      | c # cs \<Rightarrow>
          (let neg = (c = CHR ''-'');
               body = (if c = CHR ''+'' \<or> c = CHR ''-'' then cs else s)
           in if body = [] then Inl ErrSyntax
              else (case parseUintLoop 0 body of
                      Inl err \<Rightarrow> Inl err
                    | Inr un \<Rightarrow>
                        if \<not> neg \<and> un \<ge> 2 ^ 63 then Inl ErrRange
                        else if neg \<and> un > 2 ^ 63 then Inl ErrRange
                        else Inr (if neg then - int un else int un))))"

text \<open>\<^verbatim>\<open>Atoi(s)\<close> is \<^verbatim>\<open>ParseInt(s, 10, 0)\<close>, and \<open>int\<close> has 64 bits.\<close>

definition Atoi :: "string \<Rightarrow> error + int" where
  "Atoi s = ParseInt s"

definition digitChar :: "nat \<Rightarrow> char" where
  "digitChar d = char_of (48 + d)"

fun digitsOf :: "nat \<Rightarrow> string" where
  "digitsOf n = (if n < 10 then [digitChar n] else digitsOf (n div 10) @ [digitChar (n mod 10)])"

declare digitsOf.simps [simp del]

definition Itoa :: "int \<Rightarrow> string" where
  "Itoa i = (if i < 0 then CHR ''-'' # digitsOf (nat (- i)) else digitsOf (nat i))"

text \<open>An index expression \<^verbatim>\<open>xs[i]\<close> panics when \<open>i\<close> is out of range.\<close>

definition indexAt :: "'a list \<Rightarrow> nat \<Rightarrow> failure + 'a" where
  "indexAt xs i = (if i < length xs then Inr (xs ! i) else Inl Panic)"

section \<open>Quorum evaluator\<close>

subsection \<open>The threshold\<close>

text \<open>
  \<^verbatim>\<open>math.Round\<close>: the nearest integer, halves away from zero. The conversion \<^verbatim>\<open>int(f)\<close>
  drops the fraction.
\<close>

definition goRound :: "rat \<Rightarrow> rat" where
  "goRound x = (if x \<ge> 0 then of_int \<lfloor>x + 1 / 2\<rfloor> else of_int \<lceil>x - 1 / 2\<rceil>)"

definition toInt :: "rat \<Rightarrow> int" where
  "toInt x = (if x \<ge> 0 then \<lfloor>x\<rfloor> else \<lceil>x\<rceil>)"


definition quorumThreshold :: "(rat \<Rightarrow> rat) \<Rightarrow> nat \<Rightarrow> int" where
  "quorumThreshold fl n = toInt (goRound (fl (fl (75 / 100) * fl (of_nat n))))"

subsection \<open>The tally\<close>

text \<open>
  \<^verbatim>\<open>counts\<close> is a Go map from the decimal text of a tree size to a count; reading a
  key that is absent gives 0.
\<close>

type_synonym counts = "string \<Rightarrow> int option"

definition lookup :: "counts \<Rightarrow> string \<Rightarrow> int" where
  "lookup counts k = (case counts k of None \<Rightarrow> 0 | Some v \<Rightarrow> v)"

definition tallyStep :: "counts \<Rightarrow> string \<Rightarrow> failure + counts" where
  "tallyStep counts chpt =
     (let fields = Split chpt fieldSep in
      case indexAt fields 1 of
        Inl p \<Rightarrow> Inl p
      | Inr field1 \<Rightarrow>
          (case Atoi field1 of
             Inl err \<Rightarrow> Inl (Fatal ''Converting tree size to int'' err)
           | Inr treeSize \<Rightarrow>
               Inr (counts(Itoa treeSize \<mapsto> lookup counts (Itoa treeSize) + 1))))"

fun tallyInner :: "counts \<Rightarrow> string list \<Rightarrow> failure + counts" where
  "tallyInner counts [] = Inr counts"
| "tallyInner counts (chpt # chpts) =
     (case tallyStep counts chpt of
        Inl f \<Rightarrow> Inl f
      | Inr counts' \<Rightarrow> tallyInner counts' chpts)"

fun tallyOuter :: "counts \<Rightarrow> string list list \<Rightarrow> failure + counts" where
  "tallyOuter counts [] = Inr counts"
| "tallyOuter counts (chpts # rest) =
     (case tallyInner counts chpts of
        Inl f \<Rightarrow> Inl f
      | Inr counts' \<Rightarrow> tallyOuter counts' rest)"

subsection \<open>The selection scan\<close>

text \<open>
  The variables of the scan, and the errors written by \<^verbatim>\<open>log.Printf\<close> so far.
\<close>

record selection =
  maxTreeSize :: int
  largestTimestamp :: int
  latest_chpt :: string
  logged :: "error list"

definition initSelection :: selection where
  "initSelection =
     \<lparr>maxTreeSize = 0, largestTimestamp = 0, latest_chpt = [], logged = []\<rparr>"

definition selectStep :: "counts \<Rightarrow> int \<Rightarrow> selection \<Rightarrow> string \<Rightarrow> failure + selection" where
  "selectStep counts i st chpt =
     (let fields = Split chpt fieldSep in
      case indexAt fields 1 of
        Inl p \<Rightarrow> Inl p
      | Inr field1 \<Rightarrow>
          (case Atoi field1 of
             Inl err \<Rightarrow> Inl (Fatal ''Converting tree size to int'' err)
           | Inr treeSize \<Rightarrow>
               if lookup counts (Itoa treeSize) \<ge> i \<and> treeSize \<ge> maxTreeSize st then
                 (let st1 = st\<lparr>maxTreeSize := treeSize\<rparr> in
                  case indexAt fields 3 of
                    Inl p \<Rightarrow> Inl p
                  | Inr field3 \<Rightarrow>
                      (case indexAt (Split field3 '':'') 1 of
                         Inl p \<Rightarrow> Inl p
                       | Inr ts \<Rightarrow>
                           (case ParseInt (TrimSpace ts) of
                              Inl err \<Rightarrow> Inr (st1\<lparr>logged := logged st1 @ [err]\<rparr>)
                            | Inr timestamp \<Rightarrow>
                                if treeSize = maxTreeSize st1
                                   \<and> timestamp > largestTimestamp st1
                                then Inr (st1\<lparr>largestTimestamp := timestamp,
                                            latest_chpt := chpt\<rparr>)
                                else Inr st1)))
               else Inr st))"

fun selectInner :: "counts \<Rightarrow> int \<Rightarrow> selection \<Rightarrow> string list \<Rightarrow> failure + selection" where
  "selectInner counts i st [] = Inr st"
| "selectInner counts i st (chpt # chpts) =
     (case selectStep counts i st chpt of
        Inl f \<Rightarrow> Inl f
      | Inr st' \<Rightarrow> selectInner counts i st' chpts)"

fun selectOuter :: "counts \<Rightarrow> int \<Rightarrow> selection \<Rightarrow> string list list \<Rightarrow> failure + selection" where
  "selectOuter counts i st [] = Inr st"
| "selectOuter counts i st (chpts # rest) =
     (case selectInner counts i st chpts of
        Inl f \<Rightarrow> Inl f
      | Inr st' \<Rightarrow> selectOuter counts i st' rest)"

text \<open>
  The same scan with the test \<^verbatim>\<open>treeSize == maxTreeSize\<close> deleted, for comparison with
  the scan of the program.
\<close>

definition selectStepNoGuard ::
    "counts \<Rightarrow> int \<Rightarrow> selection \<Rightarrow> string \<Rightarrow> failure + selection" where
  "selectStepNoGuard counts i st chpt =
     (let fields = Split chpt fieldSep in
      case indexAt fields 1 of
        Inl p \<Rightarrow> Inl p
      | Inr field1 \<Rightarrow>
          (case Atoi field1 of
             Inl err \<Rightarrow> Inl (Fatal ''Converting tree size to int'' err)
           | Inr treeSize \<Rightarrow>
               if lookup counts (Itoa treeSize) \<ge> i \<and> treeSize \<ge> maxTreeSize st then
                 (let st1 = st\<lparr>maxTreeSize := treeSize\<rparr> in
                  case indexAt fields 3 of
                    Inl p \<Rightarrow> Inl p
                  | Inr field3 \<Rightarrow>
                      (case indexAt (Split field3 '':'') 1 of
                         Inl p \<Rightarrow> Inl p
                       | Inr ts \<Rightarrow>
                           (case ParseInt (TrimSpace ts) of
                              Inl err \<Rightarrow> Inr (st1\<lparr>logged := logged st1 @ [err]\<rparr>)
                            | Inr timestamp \<Rightarrow>
                                if timestamp > largestTimestamp st1
                                then Inr (st1\<lparr>largestTimestamp := timestamp,
                                            latest_chpt := chpt\<rparr>)
                                else Inr st1)))
               else Inr st))"

fun selectInnerNoGuard ::
    "counts \<Rightarrow> int \<Rightarrow> selection \<Rightarrow> string list \<Rightarrow> failure + selection" where
  "selectInnerNoGuard counts i st [] = Inr st"
| "selectInnerNoGuard counts i st (chpt # chpts) =
     (case selectStepNoGuard counts i st chpt of
        Inl f \<Rightarrow> Inl f
      | Inr st' \<Rightarrow> selectInnerNoGuard counts i st' chpts)"

fun selectOuterNoGuard ::
    "counts \<Rightarrow> int \<Rightarrow> selection \<Rightarrow> string list list \<Rightarrow> failure + selection" where
  "selectOuterNoGuard counts i st [] = Inr st"
| "selectOuterNoGuard counts i st (chpts # rest) =
     (case selectInnerNoGuard counts i st chpts of
        Inl f \<Rightarrow> Inl f
      | Inr st' \<Rightarrow> selectOuterNoGuard counts i st' rest)"

section \<open>Accepted-log writer\<close>

text \<open>
  \<^verbatim>\<open>os.OpenFile\<close> with \<^verbatim>\<open>O_APPEND|O_WRONLY|O_CREATE\<close>: the file is created empty when
  it does not exist.
\<close>

definition openAppend :: "world \<Rightarrow> string \<Rightarrow> error + world" where
  "openAppend w path =
     (case appendFault w path of
        Some err \<Rightarrow> Inl err
      | None \<Rightarrow>
          Inr (case files w path of
                 None \<Rightarrow> w\<lparr>files := (files w)(path \<mapsto> [])\<rparr>
               | Some content \<Rightarrow> w))"

text \<open>\<^verbatim>\<open>os.OpenFile\<close> with \<^verbatim>\<open>O_RDWR|O_TRUNC\<close>: the file must exist and is emptied.\<close>

definition openTrunc :: "world \<Rightarrow> string \<Rightarrow> error + world" where
  "openTrunc w path =
     (case files w path of
        None \<Rightarrow> Inl ErrNotExist
      | Some content \<Rightarrow>
          (case truncFault w path of
             Some err \<Rightarrow> Inl err
           | None \<Rightarrow> Inr (w\<lparr>files := (files w)(path \<mapsto> [])\<rparr>)))"

text \<open>Writing at the end of an open file.\<close>

definition WriteString :: "world \<Rightarrow> string \<Rightarrow> string \<Rightarrow> error + world" where
  "WriteString w path s =
     (case writeFault w path of
        Some err \<Rightarrow> Inl err
      | None \<Rightarrow>
          Inr (w\<lparr>files := (files w)(path \<mapsto> (case files w path of
                                                  None \<Rightarrow> [] | Some content \<Rightarrow> content) @ s)\<rparr>))"

text \<open>
  \<^verbatim>\<open>fmt.Fprintln(file, latest_chpt)\<close>: the text and a newline; the program drops the
  error it returns.
\<close>

definition Fprintln :: "world \<Rightarrow> string \<Rightarrow> string \<Rightarrow> world" where
  "Fprintln w path s =
     (case WriteString w path (s @ [LF]) of Inl err \<Rightarrow> w | Inr w' \<Rightarrow> w')"

text \<open>
  The loop \<^verbatim>\<open>for i := len(lines) - 20; i < len(lines); i++\<close> of
  \<^verbatim>\<open>deleteOldCheckpoints\<close>.
\<close>

function writeFrom :: "world \<Rightarrow> string \<Rightarrow> string list \<Rightarrow> nat \<Rightarrow> error + world" where
  "writeFrom w filename lines i =
     (if i < length lines then
        (case WriteString w filename (lines ! i @ [LF]) of
           Inl err \<Rightarrow> Inl err
         | Inr w' \<Rightarrow> writeFrom w' filename lines (i + 1))
      else Inr w)"
  by pat_completeness auto
termination
  by (relation "measure (\<lambda>(w, filename, lines, i). length lines - i)") auto

declare writeFrom.simps [simp del]

definition deleteOldCheckpoints :: "world \<Rightarrow> string \<Rightarrow> error + world" where
  "deleteOldCheckpoints w filename =
     (case osOpen w filename of
        Inl err \<Rightarrow> Inl err
      | Inr content \<Rightarrow>
          (case scanAll w filename content of
             (lines, serr) \<Rightarrow>
               (case serr of
                  Some err \<Rightarrow> Inl err
                | None \<Rightarrow>
                    (case closeFault w filename of
                       Some err \<Rightarrow> Inl err
                     | None \<Rightarrow>
                         if length lines \<le> 20 then Inr w
                         else (case openTrunc w filename of
                                 Inl err \<Rightarrow> Inl err
                               | Inr w1 \<Rightarrow>
                                   writeFrom w1 filename lines (length lines - 20))))))"

section \<open>The periodic cycle\<close>

text \<open>The loop over the monitors found, reading the history of each.\<close>

fun readAll :: "world \<Rightarrow> string list list \<Rightarrow> string list \<Rightarrow> failure + string list list" where
  "readAll w checkpoints [] = Inr checkpoints"
| "readAll w checkpoints (monitor # monitors) =
     (case readLatestCheckpoints w monitor of
        Inl err \<Rightarrow> Inl (Fatal ''Reading checkpoints from'' err)
      | Inr chpts \<Rightarrow> readAll w (checkpoints @ [chpts]) monitors)"

text \<open>
  One iteration of the loop of \<^verbatim>\<open>main\<close>, up to the sleep: the world it leaves and the
  final variables of the selection scan.
\<close>

definition cycle :: "(rat \<Rightarrow> rat) \<Rightarrow> world \<Rightarrow> failure + world \<times> selection" where
  "cycle fl w =
     (case globResult w of
        Inl err \<Rightarrow> Inl (Fatal ''Finding files with .txt extension'' err)
      | Inr monitors \<Rightarrow>
          (let i = quorumThreshold fl (length monitors) in
           case readAll w [] monitors of
             Inl f \<Rightarrow> Inl f
           | Inr checkpoints \<Rightarrow>
               (case tallyOuter Map.empty checkpoints of
                  Inl f \<Rightarrow> Inl f
                | Inr counts \<Rightarrow>
                    (case openAppend w AcceptedChptFile of
                       Inl err \<Rightarrow> Inl (Fatal ''Opening AcceptedChptFile'' err)
                     | Inr w1 \<Rightarrow>
                         (case selectOuter counts i initSelection checkpoints of
                            Inl f \<Rightarrow> Inl f
                          | Inr st \<Rightarrow>
                              (let w2 = Fprintln w1 AcceptedChptFile (latest_chpt st) in
                               case deleteOldCheckpoints w2 AcceptedChptFile of
                                 Inl err \<Rightarrow>
                                   Inl (Fatal ''failed to delete old checkpoints'' err)
                               | Inr w3 \<Rightarrow> Inr (w3, st)))))))"

section \<open>The command line and the loop of \<^verbatim>\<open>main\<close>\<close>

text \<open>
  Durations are counted in nanoseconds. The flag set holds the current value of each
  flag that has been defined. \<^verbatim>\<open>flag.Duration\<close> defines a flag with its default value
  and returns a pointer to the value, which is the name of the flag here. Only
  \<^verbatim>\<open>flag.Parse\<close>, which \<^verbatim>\<open>main\<close> does not call, reads the arguments of the process.
\<close>

definition Minute :: nat where
  "Minute = 60 * 1000000000"

type_synonym flagSet = "(string \<times> nat) list"

definition flagDuration :: "flagSet \<Rightarrow> string \<Rightarrow> nat \<Rightarrow> flagSet" where
  "flagDuration flags name val = (name, val) # flags"

definition flagValue :: "flagSet \<Rightarrow> string \<Rightarrow> nat" where
  "flagValue flags name = (case map_of flags name of None \<Rightarrow> 0 | Some v \<Rightarrow> v)"

text \<open>
  The first \<open>fuel\<close> iterations of the endless loop: the cycle, then
  \<^verbatim>\<open>time.Sleep(*interval)\<close>, during which the monitors change the world (\<open>env\<close>).
  The result holds the durations slept, most recent last.
\<close>

fun mainLoop ::
    "(rat \<Rightarrow> rat) \<Rightarrow> flagSet \<Rightarrow> (world \<Rightarrow> world) \<Rightarrow> nat \<Rightarrow> world \<Rightarrow> nat list
      \<Rightarrow> failure + world \<times> nat list" where
  "mainLoop fl flags env 0 w slept = Inr (w, slept)"
| "mainLoop fl flags env (Suc fuel) w slept =
     (case cycle fl w of
        Inl f \<Rightarrow> Inl f
      | Inr (w', st) \<Rightarrow>
          mainLoop fl flags env fuel (env w') (slept @ [flagValue flags ''interval'']))"

definition main ::
    "string list \<Rightarrow> (rat \<Rightarrow> rat) \<Rightarrow> (world \<Rightarrow> world) \<Rightarrow> nat \<Rightarrow> world
      \<Rightarrow> failure + world \<times> nat list" where
  "main args fl env fuel w =
     (let flags = flagDuration [] ''interval'' (1 * Minute)
      in mainLoop fl flags env fuel w [])"

section \<open>The monitor list\<close>

record monitorEntry =
  Description :: string
  Logfile :: string

text \<open>The struct \<^verbatim>\<open>monitorList\<close> has the one field \<^verbatim>\<open>Monitors\<close>.\<close>

type_synonym monitorList = "monitorEntry list"

text \<open>\<^verbatim>\<open>ioutil.ReadFile\<close>: the whole content, or the error of opening or reading.\<close>

definition ReadFile :: "world \<Rightarrow> string \<Rightarrow> error + string" where
  "ReadFile w path =
     (case osOpen w path of
        Inl err \<Rightarrow> Inl err
      | Inr content \<Rightarrow> (case readFault w path of Some err \<Rightarrow> Inl err | None \<Rightarrow> Inr content))"

text \<open>The loop \<^verbatim>\<open>for i, m := range list.Monitors { monitors[i] = m.Logfile }\<close>.\<close>

fun fillMonitors :: "string list \<Rightarrow> nat \<Rightarrow> monitorEntry list \<Rightarrow> string list" where
  "fillMonitors monitors i [] = monitors"
| "fillMonitors monitors i (m # ms) = fillMonitors (monitors[i := Logfile m]) (Suc i) ms"

text \<open>
  \<open>unmarshal\<close> stands for \<^verbatim>\<open>json.Unmarshal\<close> into a \<^verbatim>\<open>monitorList\<close>: the decoded
  list, or the decoding error.
\<close>

definition initMonitors ::
    "(string \<Rightarrow> error + monitorList) \<Rightarrow> world \<Rightarrow> string \<Rightarrow> error + string list" where
  "initMonitors unmarshal w logInfoFilePath =
     (case ReadFile w logInfoFilePath of
        Inl err \<Rightarrow> Inl err
      | Inr contents \<Rightarrow>
          (case unmarshal contents of
             Inl err \<Rightarrow> Inl err
           | Inr list \<Rightarrow> Inr (fillMonitors (replicate (length list) []) 0 list)))"

section \<open>Notions used to state the properties\<close>

text \<open>The bytes of a file made of the given lines, each ended by a newline.\<close>

definition unlines :: "string list \<Rightarrow> string" where
  "unlines ls = concat (map (\<lambda>l. l @ [LF]) ls)"

text \<open>The content of a file, empty when the file does not exist.\<close>

definition contentOf :: "world \<Rightarrow> string \<Rightarrow> string" where
  "contentOf w path = (case files w path of None \<Rightarrow> [] | Some content \<Rightarrow> content)"

text \<open>A world in which no library call fails for an outside reason.\<close>

definition quietWorld :: "string list \<Rightarrow> (string \<Rightarrow> string option) \<Rightarrow> world" where
  "quietWorld monitors fs =
     \<lparr>globResult = Inr monitors, files = fs,
        openFault = (\<lambda>path. None), scanFault = (\<lambda>path. None), readFault = (\<lambda>path. None),
        closeFault = (\<lambda>path. None), appendFault = (\<lambda>path. None),
        truncFault = (\<lambda>path. None), writeFault = (\<lambda>path. None)\<rparr>"

text \<open>
  The tree size of a checkpoint line as both loops of the evaluator compute it:
  the second field converted by \<open>Atoi\<close>, a panic when there is no second field, the
  fatal exit when the conversion fails.
\<close>

definition treeSizeField :: "string \<Rightarrow> failure + int" where
  "treeSizeField chpt =
     (case indexAt (Split chpt fieldSep) 1 of
        Inl p \<Rightarrow> Inl p
      | Inr field1 \<Rightarrow>
          (case Atoi field1 of
             Inl err \<Rightarrow> Inl (Fatal ''Converting tree size to int'' err)
           | Inr treeSize \<Rightarrow> Inr treeSize))"

text \<open>A checkpoint line in the format of the monitors, for the examples.\<close>

definition checkpointLine :: "string \<Rightarrow> string \<Rightarrow> string \<Rightarrow> string \<Rightarrow> string" where
  "checkpointLine origin treeSize rootHash meta =
     origin @ fieldSep @ treeSize @ fieldSep @ rootHash @ fieldSep @ meta"

text \<open>A line that stops after the tree size.\<close>

definition shortLine :: "string \<Rightarrow> string \<Rightarrow> string" where
  "shortLine origin treeSize = origin @ fieldSep @ treeSize"

text \<open>The world with one file replaced (or removed, with \<open>None\<close>).\<close>

definition withFile :: "world \<Rightarrow> string \<Rightarrow> string option \<Rightarrow> world" where
  "withFile w path x = w\<lparr>files := (files w)(path := x)\<rparr>"

text \<open>The line a cycle passes to \<^verbatim>\<open>Fprintln\<close>, when the cycle completes.\<close>

definition appendedLine :: "failure + world \<times> selection \<Rightarrow> failure + string" where
  "appendedLine r = (case r of Inl f \<Rightarrow> Inl f | Inr (w, st) \<Rightarrow> Inr (latest_chpt st))"

text \<open>
  A monitor list naming the one log file \<^verbatim>\<open>mon.txt\<close>, as JSON text, and a decoder that
  knows this text only.
\<close>

definition quoted :: "string \<Rightarrow> string" where
  "quoted s = CHR 0x22 # s @ [CHR 0x22]"

definition exampleListText :: string where
  "exampleListText =
     ''{'' @ quoted ''monitors'' @ '':[{'' @ quoted ''description'' @ '':'' @ quoted ''first''
       @ '','' @ quoted ''logfile'' @ '':'' @ quoted ''mon.txt'' @ ''}]}''"

definition exampleDecoder :: "string \<Rightarrow> error + monitorList" where
  "exampleDecoder contents =
     (if contents = exampleListText
      then Inr [\<lparr>Description = ''first'', Logfile = ''mon.txt''\<rparr>]
      else Inl ErrJSON)"

definition exampleFiles :: "string \<Rightarrow> string option" where
  "exampleFiles =
     (\<lambda>path. None)
       (MonitorList \<mapsto> exampleListText,
        ''mon.txt'' \<mapsto> unlines [checkpointLine ''O'' ''100'' ''HASH'' ''timestamp: 5000''])"

section \<open>Properties of the checkpoint reader\<close>

lemma readLoop_drop:
  "length acc \<le> 2 \<Longrightarrow> readLoop acc ts = drop (length (acc @ ts) - 2) (acc @ ts)"
proof (induction ts arbitrary: acc)
  case Nil
  then show ?case by simp
next
  case (Cons t ts)
  show ?case
  proof (cases "length acc = 2")
    case True
    then have "readLoop acc (t # ts) = readLoop (drop 1 (acc @ [t])) ts"
      by (simp add: Let_def)
    also have "\<dots> = drop (length (drop 1 (acc @ [t]) @ ts) - 2) (drop 1 (acc @ [t]) @ ts)"
      using True by (intro Cons.IH) simp
    also have "\<dots> = drop (length (acc @ t # ts) - 2) (acc @ t # ts)"
      using True by (cases acc) (simp_all add: Suc_diff_le)
    finally show ?thesis .
  next
    case False
    with Cons.prems have short: "length acc < 2" by simp
    then have "readLoop acc (t # ts) = readLoop (acc @ [t]) ts"
      by (simp add: Let_def)
    also have "\<dots> = drop (length ((acc @ [t]) @ ts) - 2) ((acc @ [t]) @ ts)"
      using short by (intro Cons.IH) simp
    finally show ?thesis by simp
  qed
qed

lemma readLatestCheckpoints_eq:
  "readLatestCheckpoints w filename =
     (case osOpen w filename of
        Inl err \<Rightarrow> Inl err
      | Inr content \<Rightarrow>
          (case scanFault w filename of
             Some (k, err) \<Rightarrow> Inl err
           | None \<Rightarrow> Inr (drop (length (scanLines content) - 2) (scanLines content))))"
  using readLoop_drop [of "[]"]
  by (simp add: readLatestCheckpoints_def scanAll_def
      split: sum.splits option.splits prod.splits)

section \<open>Properties of the quorum threshold\<close>





section \<open>Properties of the selection scan\<close>

lemma selectStep_NoGuard: "selectStep counts i st chpt = selectStepNoGuard counts i st chpt"
  by (simp add: selectStep_def selectStepNoGuard_def Let_def
      split: sum.splits)

lemma selectInner_NoGuard:
  "selectInner counts i st chpts = selectInnerNoGuard counts i st chpts"
  by (induction chpts arbitrary: st) (simp_all add: selectStep_NoGuard split: sum.splits)

lemma selectOuter_NoGuard:
  "selectOuter counts i st checkpoints = selectOuterNoGuard counts i st checkpoints"
  by (induction checkpoints arbitrary: st) (simp_all add: selectInner_NoGuard split: sum.splits)

text \<open>
  Claim C5. The test \<^verbatim>\<open>treeSize == maxTreeSize\<close> is made on the state in which
  \<open>maxTreeSize\<close> has just been set to the tree size of the same checkpoint, where it
  holds; so the step and the whole scan of the program are equal, on every input, to
  the step and the scan without that test.
\<close>

theorem select_guard_redundant:
  "maxTreeSize (st\<lparr>maxTreeSize := treeSize\<rparr>) = treeSize
   \<and> selectStep counts i st chpt = selectStepNoGuard counts i st chpt
   \<and> selectOuter counts i st checkpoints = selectOuterNoGuard counts i st checkpoints"
  by (simp add: selectStep_NoGuard selectOuter_NoGuard)

section \<open>Properties of the accepted-log writer\<close>


lemma dropCR_subset: "set (dropCR t) \<subseteq> set t"
  by (auto simp: dropCR_def dest: in_set_butlastD)

lemma scanLines_no_LF: "t \<in> set (scanLines s) \<Longrightarrow> LF \<notin> set t"
proof (induction s arbitrary: t rule: scanLines.induct)
  case 1
  then show ?case by simp
next
  case (2 c cs)
  from "2.prems" consider
    "t = dropCR (takeWhile (\<lambda>x. x \<noteq> LF) (c # cs))"
    | "t \<in> set (scanLines (drop 1 (dropWhile (\<lambda>x. x \<noteq> LF) (c # cs))))"
    by (auto simp del: takeWhile.simps dropWhile.simps)
  then show ?case
  proof cases
    case 1
    have "LF \<notin> set (takeWhile (\<lambda>x. x \<noteq> LF) (c # cs))"
      using set_takeWhileD by fastforce
    then show ?thesis using 1 dropCR_subset by blast
  next
    case 2
    then show ?thesis by (rule "2.IH")
  qed
qed

lemma scanLines_line:
  assumes "LF \<notin> set l"
  shows "scanLines (l @ LF # rest) = dropCR l # scanLines rest"
proof -
  have tw: "takeWhile (\<lambda>x. x \<noteq> LF) (l @ LF # rest) = l"
    using assms by (induction l) auto
  have dw: "dropWhile (\<lambda>x. x \<noteq> LF) (l @ LF # rest) = LF # rest"
    using assms by (induction l) auto
  obtain c cs where eq: "l @ LF # rest = c # cs"
    by (cases l) auto
  have "scanLines (c # cs) =
        dropCR (takeWhile (\<lambda>x. x \<noteq> LF) (c # cs))
          # scanLines (drop 1 (dropWhile (\<lambda>x. x \<noteq> LF) (c # cs)))"
    by (rule scanLines.simps(2))
  then show ?thesis
    unfolding eq [symmetric] tw dw by simp
qed

lemma scanLines_unlines:
  "\<forall>l \<in> set ls. LF \<notin> set l \<Longrightarrow> scanLines (unlines ls) = map dropCR ls"
proof (induction ls)
  case Nil
  then show ?case by (simp add: unlines_def)
next
  case (Cons l ls)
  have "unlines (l # ls) = l @ LF # unlines ls"
    by (simp add: unlines_def)
  then show ?case using Cons by (simp add: scanLines_line)
qed

lemma writeFrom_eq:
  "writeFrom w f lines i =
     (if length lines \<le> i then Inr w
      else (case writeFault w f of
              Some err \<Rightarrow> Inl err
            | None \<Rightarrow> Inr (w\<lparr>files := (files w)(f \<mapsto> contentOf w f @ unlines (drop i lines))\<rparr>)))"
proof (induction w f lines i rule: writeFrom.induct)
  case (1 w f lines i)
  show ?case
  proof (cases "i < length lines")
    case False
    then show ?thesis by (simp add: writeFrom.simps)
  next
    case True
    show ?thesis
    proof (cases "writeFault w f")
      case (Some err)
      then show ?thesis using True
        by (subst writeFrom.simps) (simp add: WriteString_def)
    next
      case None
      let ?w1 = "w\<lparr>files := (files w)(f \<mapsto> contentOf w f @ lines ! i @ [LF])\<rparr>"
      have ws: "WriteString w f (lines ! i @ [LF]) = Inr ?w1"
        using None by (simp add: WriteString_def contentOf_def)
      have ih: "writeFrom ?w1 f lines (i + 1) =
         (if length lines \<le> i + 1 then Inr ?w1
          else (case writeFault ?w1 f of
              Some err \<Rightarrow> Inl err
            | None \<Rightarrow> Inr (?w1\<lparr>files := (files ?w1)(f \<mapsto> contentOf ?w1 f @ unlines (drop (i + 1) lines))\<rparr>)))"
        using "1.IH" [OF True ws] .
      have step: "writeFrom w f lines i = writeFrom ?w1 f lines (i + 1)"
        using True ws by (subst writeFrom.simps) simp
      have dr: "drop i lines = lines ! i # drop (Suc i) lines"
        using True by (simp add: Cons_nth_drop_Suc)
      show ?thesis
        unfolding step ih using True None
        by (auto simp: dr unlines_def contentOf_def)
    qed
  qed
qed

lemma deleteOldCheckpoints_Inr:
  assumes "deleteOldCheckpoints w f = Inr w'"
  shows "\<exists>content. files w f = Some content
           \<and> (if length (scanLines content) \<le> 20 then w' = w
              else files w' f
                   = Some (unlines (drop (length (scanLines content) - 20) (scanLines content))))"
proof -
  obtain content where o: "osOpen w f = Inr content"
    using assms by (cases "osOpen w f") (simp_all add: deleteOldCheckpoints_def)
  then have fc: "files w f = Some content"
    by (simp add: osOpen_def split: option.splits)
  have sf: "scanFault w f = None"
    using assms o by (cases "scanFault w f") (auto simp: deleteOldCheckpoints_def scanAll_def)
  then have sc: "scanAll w f content = (scanLines content, None)"
    by (simp add: scanAll_def)
  have cf: "closeFault w f = None"
    using assms o sc by (cases "closeFault w f") (simp_all add: deleteOldCheckpoints_def)
  let ?lines = "scanLines content"
  show ?thesis
  proof (cases "length ?lines \<le> 20")
    case True
    then have "w' = w"
      using assms o sc cf by (simp add: deleteOldCheckpoints_def)
    with True fc show ?thesis by simp
  next
    case False
    let ?w1 = "w\<lparr>files := (files w)(f \<mapsto> [])\<rparr>"
    have tf: "truncFault w f = None"
      using assms o sc cf False fc
      by (cases "truncFault w f") (simp_all add: deleteOldCheckpoints_def openTrunc_def)
    then have ot: "openTrunc w f = Inr ?w1"
      using fc by (simp add: openTrunc_def)
    have wf: "writeFrom ?w1 f ?lines (length ?lines - 20) = Inr w'"
      using assms o sc cf False ot by (simp add: deleteOldCheckpoints_def)
    have lt: "\<not> length ?lines \<le> length ?lines - 20"
      using False by simp
    have "files w' f = Some (unlines (drop (length ?lines - 20) ?lines))"
      using wf unfolding writeFrom_eq [of ?w1]
      by (cases "writeFault w f") (auto simp: lt contentOf_def)
    with False fc show ?thesis by simp
  qed
qed

lemma cycleE:
  assumes "cycle fl w = Inr (w', st)"
  obtains monitors checkpoints counts w1 where
    "globResult w = Inr monitors"
    "readAll w [] monitors = Inr checkpoints"
    "tallyOuter Map.empty checkpoints = Inr counts"
    "openAppend w AcceptedChptFile = Inr w1"
    "selectOuter counts (quorumThreshold fl (length monitors)) initSelection checkpoints = Inr st"
    "deleteOldCheckpoints (Fprintln w1 AcceptedChptFile (latest_chpt st)) AcceptedChptFile = Inr w'"
proof -
  obtain monitors where g: "globResult w = Inr monitors"
    using assms by (cases "globResult w") (simp_all add: cycle_def)
  obtain checkpoints where r: "readAll w [] monitors = Inr checkpoints"
    using assms g by (cases "readAll w [] monitors") (simp_all add: cycle_def)
  obtain counts where t: "tallyOuter Map.empty checkpoints = Inr counts"
    using assms g r by (cases "tallyOuter Map.empty checkpoints") (simp_all add: cycle_def)
  obtain w1 where a: "openAppend w AcceptedChptFile = Inr w1"
    using assms g r t by (cases "openAppend w AcceptedChptFile") (simp_all add: cycle_def)
  obtain st' where s: "selectOuter counts (quorumThreshold fl (length monitors)) initSelection checkpoints = Inr st'"
    using assms g r t a
    by (cases "selectOuter counts (quorumThreshold fl (length monitors)) initSelection checkpoints")
      (simp_all add: cycle_def)
  have "st' = st \<and> deleteOldCheckpoints (Fprintln w1 AcceptedChptFile (latest_chpt st')) AcceptedChptFile = Inr w'"
    using assms g r t a s
    by (cases "deleteOldCheckpoints (Fprintln w1 AcceptedChptFile (latest_chpt st')) AcceptedChptFile")
      (simp_all add: cycle_def)
  with g r t a s that show ?thesis by blast
qed

lemma Fprintln_openAppend:
  assumes "openAppend w f = Inr w1"
  shows "files (Fprintln w1 f s) f
         = Some (if writeFault w f = None then contentOf w f @ s @ [LF] else contentOf w f)"
  using assms
  by (auto simp: openAppend_def Fprintln_def WriteString_def contentOf_def
      split: option.splits)

lemma cycle_accepted_log:
  assumes "cycle fl w = Inr (w', st)"
  shows "\<exists>content. files w' AcceptedChptFile = Some content
     \<and> length (scanLines content) \<le> 20
     \<and> (let appended = (if writeFault w AcceptedChptFile = None
                         then contentOf w AcceptedChptFile @ latest_chpt st @ [LF]
                         else contentOf w AcceptedChptFile);
             n = length (scanLines appended)
         in (20 < n \<longrightarrow> content = unlines (drop (n - 20) (scanLines appended)))
          \<and> (n \<le> 20 \<longrightarrow> content = appended)
          \<and> (length (scanLines (contentOf w AcceptedChptFile)) = 25 \<and> n = 26
               \<longrightarrow> content = unlines (drop 6 (scanLines appended))))"
proof -
  define appended where "appended = (if writeFault w AcceptedChptFile = None
                         then contentOf w AcceptedChptFile @ latest_chpt st @ [LF]
                         else contentOf w AcceptedChptFile)"
  define lines where "lines = scanLines appended"
  from assms obtain w1 where
    op: "openAppend w AcceptedChptFile = Inr w1" and
    del: "deleteOldCheckpoints (Fprintln w1 AcceptedChptFile (latest_chpt st)) AcceptedChptFile = Inr w'"
    by (rule cycleE)
  have app: "files (Fprintln w1 AcceptedChptFile (latest_chpt st)) AcceptedChptFile = Some appended"
    using Fprintln_openAppend [OF op] by (simp add: appended_def)
  from deleteOldCheckpoints_Inr [OF del] app
  have res: "if length lines \<le> 20
             then w' = Fprintln w1 AcceptedChptFile (latest_chpt st)
             else files w' AcceptedChptFile = Some (unlines (drop (length lines - 20) lines))"
    by (auto simp: lines_def)
  show ?thesis
  proof (cases "length lines \<le> 20")
    case True
    with res app have "files w' AcceptedChptFile = Some appended" by simp
    then show ?thesis
      using True by (simp add: Let_def appended_def [symmetric] lines_def [symmetric])
  next
    case False
    with res have c: "files w' AcceptedChptFile = Some (unlines (drop (length lines - 20) lines))"
      by simp
    have "\<forall>l \<in> set (drop (length lines - 20) lines). LF \<notin> set l"
      using scanLines_no_LF in_set_dropD unfolding lines_def by metis
    then have "scanLines (unlines (drop (length lines - 20) lines))
               = map dropCR (drop (length lines - 20) lines)"
      by (rule scanLines_unlines)
    then have "length (scanLines (unlines (drop (length lines - 20) lines))) \<le> 20"
      using False by simp
    then show ?thesis
      using False c by (simp add: Let_def appended_def [symmetric] lines_def [symmetric])
  qed
qed

text \<open>
  Claim C3. After a cycle that completes, the accepted log holds at most 20 lines.
  Lines are the tokens the scanner delivers (the newline, and one carriage return
  before it, are not part of a line). With \<open>appended\<close> the content of the log after
  the append of the cycle (the append is lost when the write fails, since the program
  drops its error) and \<open>n\<close> the number of its lines: when \<open>n\<close> exceeds 20 the log
  is rewritten to the last 20 of these lines, in order, each ended by a newline;
  otherwise it is left as it is. A log of 25 lines that receives a 26th is rewritten
  to the last 20 of the 26.
\<close>

theorem accepted_log_bounded:
  assumes "cycle fl w = Inr (w', st)"
  shows "\<exists>content. files w' AcceptedChptFile = Some content
     \<and> length (scanLines content) \<le> 20
     \<and> (let appended = (if writeFault w AcceptedChptFile = None
                         then contentOf w AcceptedChptFile @ latest_chpt st @ [LF]
                         else contentOf w AcceptedChptFile);
             n = length (scanLines appended)
         in (20 < n \<longrightarrow> content = unlines (drop (n - 20) (scanLines appended)))
          \<and> (n \<le> 20 \<longrightarrow> content = appended)
          \<and> (length (scanLines (contentOf w AcceptedChptFile)) = 25 \<and> n = 26
               \<longrightarrow> content = unlines (drop 6 (scanLines appended))))"
  by (rule cycle_accepted_log [OF assms])

theorem accepted_log_bounded_witness:
  "(\<exists>w' st. cycle (\<lambda>x. x) (quietWorld []
        ((\<lambda>path. None)(AcceptedChptFile \<mapsto> unlines
           [''a'', ''b'', ''c'', ''d'', ''e'', ''f'', ''g'', ''h'', ''i'', ''j'', ''k'', ''l'', ''m'',
            ''n'', ''o'', ''p'', ''q'', ''r'', ''s'', ''t'', ''u'', ''v'', ''w'', ''x'', ''y'']))) = Inr (w', st)
      \<and> files w' AcceptedChptFile = Some (unlines
           [''g'', ''h'', ''i'', ''j'', ''k'', ''l'', ''m'',
            ''n'', ''o'', ''p'', ''q'', ''r'', ''s'', ''t'', ''u'', ''v'', ''w'', ''x'', ''y'', []]))
   \<and> (\<exists>w' st. cycle (\<lambda>x. x) (quietWorld [] (\<lambda>path. None)) = Inr (w', st)
      \<and> files w' AcceptedChptFile = Some [LF])"
proof -
  let ?L = "[''a'', ''b'', ''c'', ''d'', ''e'', ''f'', ''g'', ''h'', ''i'', ''j'', ''k'', ''l'', ''m'',
            ''n'', ''o'', ''p'', ''q'', ''r'', ''s'', ''t'', ''u'', ''v'', ''w'', ''x'', ''y'']"
  let ?M = "[''a'', ''b'', ''c'', ''d'', ''e'', ''f'', ''g'', ''h'', ''i'', ''j'', ''k'', ''l'', ''m'',
            ''n'', ''o'', ''p'', ''q'', ''r'', ''s'', ''t'', ''u'', ''v'', ''w'', ''x'', ''y'', []]"
  let ?W = "quietWorld [] ((\<lambda>path. None)(AcceptedChptFile \<mapsto> unlines ?L))"
  let ?V = "quietWorld [] (\<lambda>path. None)"
  have "scanLines (unlines ?M) = map dropCR ?M"
    by (rule scanLines_unlines) (simp add: LF_def)
  then have sl: "scanLines (unlines ?M) = ?M"
    by (simp add: dropCR_def CR_def)
  have app: "unlines ?L @ [LF] = unlines ?M"
    by (simp add: unlines_def)
  have l26: "scanLines (unlines ?L @ latest_chpt initSelection @ [LF]) = ?M"
    using sl by (simp add: initSelection_def app)
  have "\<exists>w'. cycle (\<lambda>x. x) ?W = Inr (w', initSelection)"
    by (simp add: cycle_def quietWorld_def openAppend_def Fprintln_def WriteString_def
        deleteOldCheckpoints_def osOpen_def scanAll_def openTrunc_def writeFrom_eq contentOf_def
        l26 Let_def)
  then obtain w' where c: "cycle (\<lambda>x. x) ?W = Inr (w', initSelection)" ..
  have cw: "contentOf ?W AcceptedChptFile = unlines ?L"
    by (simp add: contentOf_def quietWorld_def)
  have wf: "writeFault ?W AcceptedChptFile = None"
    by (simp add: quietWorld_def)
  have A: "files w' AcceptedChptFile = Some (unlines
           [''g'', ''h'', ''i'', ''j'', ''k'', ''l'', ''m'',
            ''n'', ''o'', ''p'', ''q'', ''r'', ''s'', ''t'', ''u'', ''v'', ''w'', ''x'', ''y'', []])"
    using accepted_log_bounded [OF c] by (auto simp: cw wf l26 Let_def)
  have l1: "scanLines ([] @ latest_chpt initSelection @ [LF]) = [[]]"
    by (simp add: initSelection_def LF_def dropCR_def)
  have "\<exists>w'. cycle (\<lambda>x. x) ?V = Inr (w', initSelection)"
    using l1
    by (simp add: cycle_def quietWorld_def openAppend_def Fprintln_def WriteString_def
        deleteOldCheckpoints_def osOpen_def scanAll_def Let_def)
  then obtain v' where d: "cycle (\<lambda>x. x) ?V = Inr (v', initSelection)" ..
  have cv: "contentOf ?V AcceptedChptFile = []"
    by (simp add: contentOf_def quietWorld_def)
  have wv: "writeFault ?V AcceptedChptFile = None"
    by (simp add: quietWorld_def)
  have B: "files v' AcceptedChptFile = Some [LF]"
    using accepted_log_bounded [OF d] l1 by (auto simp: cv wv Let_def initSelection_def)
  from c A d B show ?thesis by blast
qed

section \<open>Properties of the tally\<close>


lemma digitVal_digitChar: "d < 10 \<Longrightarrow> digitVal (digitChar d) = d"
  by (simp add: digitVal_def digitChar_def)

lemma isDigit_digitChar: "d < 10 \<Longrightarrow> isDigit (digitChar d)"
  by (simp add: isDigit_def digitChar_def)

lemma digitsOf_decode: "foldl (\<lambda>a c. a * 10 + digitVal c) 0 (digitsOf n) = n"
proof (induction n rule: digitsOf.induct)
  case (1 n)
  show ?case
  proof (cases "n < 10")
    case True
    then show ?thesis by (subst digitsOf.simps) (simp add: digitVal_digitChar)
  next
    case False
    then have "foldl (\<lambda>a c. a * 10 + digitVal c) 0 (digitsOf (n div 10)) = n div 10"
      using "1.IH" by simp
    then show ?thesis
      using False by (subst digitsOf.simps) (simp add: digitVal_digitChar)
  qed
qed

lemma digitsOf_digits: "c \<in> set (digitsOf n) \<Longrightarrow> isDigit c"
proof (induction n rule: digitsOf.induct)
  case (1 n)
  show ?case
  proof (cases "n < 10")
    case True
    then show ?thesis using "1.prems"
      by (subst (asm) digitsOf.simps) (simp add: isDigit_digitChar)
  next
    case False
    then show ?thesis using "1.prems" "1.IH"
      by (subst (asm) digitsOf.simps) (auto simp: isDigit_digitChar)
  qed
qed

lemma digitsOf_inj: "digitsOf a = digitsOf b \<Longrightarrow> a = b"
  by (metis digitsOf_decode)

lemma minus_not_digit: "\<not> isDigit CHR ''-''"
  by (simp add: isDigit_def)

lemma Itoa_inj: "Itoa a = Itoa b \<longleftrightarrow> a = b"
proof
  assume eq: "Itoa a = Itoa b"
  consider "a < 0" "b < 0" | "a < 0" "0 \<le> b" | "0 \<le> a" "b < 0" | "0 \<le> a" "0 \<le> b"
    by linarith
  then show "a = b"
  proof cases
    case 1
    with eq have "nat (- a) = nat (- b)" by (simp add: Itoa_def digitsOf_inj)
    with 1 show ?thesis by simp
  next
    case 2
    with eq have "digitsOf (nat b) = CHR ''-'' # digitsOf (nat (- a))"
      by (simp add: Itoa_def)
    then have "CHR ''-'' \<in> set (digitsOf (nat b))"
      by (metis list.set_intros(1))
    then show ?thesis using digitsOf_digits minus_not_digit by blast
  next
    case 3
    with eq have "digitsOf (nat a) = CHR ''-'' # digitsOf (nat (- b))"
      by (simp add: Itoa_def)
    then have "CHR ''-'' \<in> set (digitsOf (nat a))"
      by (metis list.set_intros(1))
    then show ?thesis using digitsOf_digits minus_not_digit by blast
  next
    case 4
    with eq have "nat a = nat b" by (simp add: Itoa_def digitsOf_inj)
    with 4 show ?thesis by simp
  qed
qed simp

lemma tallyStep_treeSizeField:
  "tallyStep counts chpt =
     (case treeSizeField chpt of
        Inl f \<Rightarrow> Inl f
      | Inr t \<Rightarrow> Inr (counts(Itoa t \<mapsto> lookup counts (Itoa t) + 1)))"
  by (simp add: tallyStep_def treeSizeField_def Let_def split: sum.splits)

lemma tallyInner_counts:
  "tallyInner counts chpts = Inr counts' \<Longrightarrow>
     lookup counts' (Itoa t)
       = lookup counts (Itoa t) + int (length (filter (\<lambda>c. treeSizeField c = Inr t) chpts))"
proof (induction chpts arbitrary: counts)
  case Nil
  then show ?case by simp
next
  case (Cons c chpts)
  from Cons.prems obtain s where s: "treeSizeField c = Inr s"
    and rest: "tallyInner (counts(Itoa s \<mapsto> lookup counts (Itoa s) + 1)) chpts = Inr counts'"
    by (auto simp: tallyStep_treeSizeField split: sum.splits)
  have a: "lookup counts' (Itoa t)
        = lookup (counts(Itoa s \<mapsto> lookup counts (Itoa s) + 1)) (Itoa t)
          + int (length (filter (\<lambda>c. treeSizeField c = Inr t) chpts))"
    by (rule Cons.IH [OF rest])
  have b: "lookup (counts(Itoa s \<mapsto> lookup counts (Itoa s) + 1)) (Itoa t)
        = lookup counts (Itoa t) + (if s = t then 1 else 0)"
    by (simp add: lookup_def Itoa_inj)
  have c: "int (length (filter (\<lambda>c. treeSizeField c = Inr t) (c # chpts)))
        = (if s = t then 1 else 0) + int (length (filter (\<lambda>c. treeSizeField c = Inr t) chpts))"
    using s by simp
  show ?case unfolding a b c by simp
qed

lemma tallyOuter_counts:
  "tallyOuter counts checkpoints = Inr counts' \<Longrightarrow>
     lookup counts' (Itoa t)
       = lookup counts (Itoa t)
         + int (length (filter (\<lambda>c. treeSizeField c = Inr t) (concat checkpoints)))"
proof (induction checkpoints arbitrary: counts)
  case Nil
  then show ?case by simp
next
  case (Cons chpts rest)
  from Cons.prems obtain c1 where i: "tallyInner counts chpts = Inr c1"
    and r: "tallyOuter c1 rest = Inr counts'"
    by (auto split: sum.splits)
  show ?case
    using tallyInner_counts [OF i, of t] Cons.IH [OF r] by simp
qed

text \<open>The definitions that evaluate the parsing of a concrete line.\<close>

lemmas eval_parse = treeSizeField_def checkpointLine_def shortLine_def Split_def fieldSep_def indexAt_def
  Atoi_def ParseInt_def isDigit_def digitVal_def maxUint64_def Let_def

lemma tsf100: "treeSizeField (checkpointLine ''O'' ''100'' ''HASH'' ''timestamp: 5000'') = Inr 100"
  by (simp add: eval_parse)

lemma tsf90: "treeSizeField (checkpointLine ''O'' ''90'' ''HASH'' ''timestamp: 4000'') = Inr 90"
  by (simp add: eval_parse)

text \<open>
  Claim C4. When the tally pass succeeds, the count stored under the decimal text of
  a tree size \<open>t\<close> is the number of checkpoint lines, over the histories of all the
  monitors, whose tree size is \<open>t\<close>: lines are counted, not monitors. A history whose
  two lines report the same size gives that size two votes.
\<close>

theorem tally_counts_lines:
  assumes "tallyOuter Map.empty checkpoints = Inr counts"
  shows "lookup counts (Itoa t)
           = int (length (filter (\<lambda>chpt. treeSizeField chpt = Inr t) (concat checkpoints)))
       \<and> (treeSizeField chpt = Inr t \<longrightarrow>
            (\<exists>counts2. tallyOuter Map.empty [[chpt, chpt]] = Inr counts2
                       \<and> lookup counts2 (Itoa t) = 2))"
proof -
  have "lookup counts (Itoa t)
           = int (length (filter (\<lambda>chpt. treeSizeField chpt = Inr t) (concat checkpoints)))"
    using tallyOuter_counts [OF assms, of t] by (simp add: lookup_def)
  moreover have "\<exists>counts2. tallyOuter Map.empty [[chpt, chpt]] = Inr counts2
                       \<and> lookup counts2 (Itoa t) = 2"
    if "treeSizeField chpt = Inr t"
    using that by (simp add: tallyStep_treeSizeField lookup_def)
  ultimately show ?thesis by blast
qed

theorem tally_counts_lines_witness:
  "\<exists>counts.
     tallyOuter Map.empty
       [[checkpointLine ''O'' ''100'' ''HASH'' ''timestamp: 5000'',
         checkpointLine ''O'' ''100'' ''HASH'' ''timestamp: 5000''],
        [checkpointLine ''O'' ''90'' ''HASH'' ''timestamp: 4000'']] = Inr counts
     \<and> lookup counts (Itoa 100) = 2 \<and> lookup counts (Itoa 90) = 1 \<and> lookup counts (Itoa 7) = 0
     \<and> treeSizeField (checkpointLine ''O'' ''100'' ''HASH'' ''timestamp: 5000'') = Inr 100
     \<and> (\<exists>counts2.
           tallyOuter Map.empty
             [[checkpointLine ''O'' ''100'' ''HASH'' ''timestamp: 5000'',
               checkpointLine ''O'' ''100'' ''HASH'' ''timestamp: 5000'']] = Inr counts2
           \<and> lookup counts2 (Itoa 100) = 2)"
proof -
  let ?c = "checkpointLine ''O'' ''100'' ''HASH'' ''timestamp: 5000''"
  let ?d = "checkpointLine ''O'' ''90'' ''HASH'' ''timestamp: 4000''"
  have "\<exists>counts. tallyOuter Map.empty [[?c, ?c], [?d]] = Inr counts"
    by (simp add: tallyStep_treeSizeField tsf100 tsf90)
  then obtain counts where t: "tallyOuter Map.empty [[?c, ?c], [?d]] = Inr counts" ..
  show ?thesis
    using t tally_counts_lines [OF t, of 100 ?c] tally_counts_lines [OF t, of 90 ?c]
      tally_counts_lines [OF t, of 7 ?c]
    by (simp add: tsf100 tsf90)
qed

section \<open>Steps of the evaluator on one checkpoint line\<close>


lemma splitOn_none:
  "\<forall>xs ys. s \<noteq> xs @ (d # ds) @ ys \<Longrightarrow> splitOn d ds cur s = [cur @ s]"
proof (induction s arbitrary: cur)
  case Nil
  then show ?case by simp
next
  case (Cons c cs)
  have no: "\<not> (c = d \<and> take (length ds) cs = ds)"
  proof
    assume h: "c = d \<and> take (length ds) cs = ds"
    then have "c # cs = [] @ (d # ds) @ drop (length ds) cs"
      by (metis append_Cons append_Nil append_take_drop_id)
    with Cons.prems show False by blast
  qed
  have "\<forall>xs ys. cs \<noteq> xs @ (d # ds) @ ys"
  proof (intro allI notI)
    fix xs ys assume "cs = xs @ (d # ds) @ ys"
    then have "c # cs = (c # xs) @ (d # ds) @ ys" by simp
    with Cons.prems show False by blast
  qed
  then have "splitOn d ds (cur @ [c]) cs = [(cur @ [c]) @ cs]"
    by (rule Cons.IH)
  with no show ?case by auto
qed

lemma Split_no_fieldSep:
  "\<forall>xs ys. chpt \<noteq> xs @ fieldSep @ ys \<Longrightarrow> Split chpt fieldSep = [chpt]"
  using splitOn_none [of chpt "CHR 0x5C" "[CHR ''n'']" "[]"]
  by (simp add: Split_def fieldSep_def)

lemma Split_no_colon: "CHR '':'' \<notin> set s \<Longrightarrow> Split s '':'' = [s]"
proof -
  assume a: "CHR '':'' \<notin> set s"
  have "\<forall>xs ys. s \<noteq> xs @ (CHR '':'' # []) @ ys"
    using a by auto
  then show ?thesis
    using splitOn_none [of s "CHR '':''" "[]" "[]"] by (simp add: Split_def)
qed

lemma treeSizeField_short:
  "length (Split chpt fieldSep) < 2 \<Longrightarrow> treeSizeField chpt = Inl Panic"
  by (simp add: treeSizeField_def indexAt_def)

lemma selectStep_fail:
  "treeSizeField chpt = Inl f \<Longrightarrow> selectStep counts i st chpt = Inl f"
  by (auto simp: selectStep_def treeSizeField_def Let_def split: sum.splits)

lemma selectStep_skip:
  "treeSizeField chpt = Inr t \<Longrightarrow> \<not> (i \<le> lookup counts (Itoa t) \<and> maxTreeSize st \<le> t)
     \<Longrightarrow> selectStep counts i st chpt = Inr st"
  by (auto simp: selectStep_def treeSizeField_def Let_def split: sum.splits)

lemma selectStep_guarded:
  assumes "treeSizeField chpt = Inr t" "i \<le> lookup counts (Itoa t)" "maxTreeSize st \<le> t"
  shows "selectStep counts i st chpt =
     (case indexAt (Split chpt fieldSep) 3 of
        Inl p \<Rightarrow> Inl p
      | Inr field3 \<Rightarrow>
          (case indexAt (Split field3 '':'') 1 of
             Inl p \<Rightarrow> Inl p
           | Inr ts \<Rightarrow>
               (case ParseInt (TrimSpace ts) of
                  Inl err \<Rightarrow> Inr (st\<lparr>maxTreeSize := t, logged := logged st @ [err]\<rparr>)
                | Inr timestamp \<Rightarrow>
                    if timestamp > largestTimestamp st
                    then Inr (st\<lparr>maxTreeSize := t, largestTimestamp := timestamp,
                                latest_chpt := chpt\<rparr>)
                    else Inr (st\<lparr>maxTreeSize := t\<rparr>))))"
proof -
  obtain field1 where f1: "indexAt (Split chpt fieldSep) 1 = Inr field1"
    and a: "Atoi field1 = Inr t"
    using assms(1) by (auto simp: treeSizeField_def split: sum.splits)
  show ?thesis
    unfolding selectStep_def Let_def f1 using assms(2,3)
    by (simp add: a split: sum.splits)
qed

text \<open>
  Claim C8. The index expressions of the evaluator can fail. A line with no field
  separator has fewer than two fields, and then both passes panic at \<^verbatim>\<open>fields[1]\<close>.
  A line that passes the quorum test with fewer than four fields panics at
  \<^verbatim>\<open>fields[3]\<close>, and one whose fourth field has no colon panics at the index 1 of
  its split. A panic is not the fatal exit of \<^verbatim>\<open>log.Fatalf\<close>, and the step returns no
  state, so nothing is logged and skipped either.
\<close>

theorem field_access_panics:
  "((\<forall>xs ys. chpt \<noteq> xs @ fieldSep @ ys) \<longrightarrow> length (Split chpt fieldSep) < 2)
   \<and> (length (Split chpt fieldSep) < 2 \<longrightarrow>
        tallyStep counts chpt = Inl Panic \<and> selectStep counts i st chpt = Inl Panic)
   \<and> (treeSizeField chpt = Inr t \<and> i \<le> lookup counts (Itoa t) \<and> maxTreeSize st \<le> t
        \<and> length (Split chpt fieldSep) < 4 \<longrightarrow>
        selectStep counts i st chpt = Inl Panic)
   \<and> (treeSizeField chpt = Inr t \<and> i \<le> lookup counts (Itoa t) \<and> maxTreeSize st \<le> t
        \<and> indexAt (Split chpt fieldSep) 3 = Inr field3 \<and> CHR '':'' \<notin> set field3 \<longrightarrow>
        selectStep counts i st chpt = Inl Panic)
   \<and> (\<forall>msg err. Panic \<noteq> Fatal msg err)"
proof -
  have a: "length (Split chpt fieldSep) < 2" if "\<forall>xs ys. chpt \<noteq> xs @ fieldSep @ ys"
    using Split_no_fieldSep [OF that] by simp
  have b: "tallyStep counts chpt = Inl Panic \<and> selectStep counts i st chpt = Inl Panic"
    if "length (Split chpt fieldSep) < 2"
    using treeSizeField_short [OF that]
    by (simp add: tallyStep_treeSizeField selectStep_fail)
  have c: "selectStep counts i st chpt = Inl Panic"
    if "treeSizeField chpt = Inr t" "i \<le> lookup counts (Itoa t)" "maxTreeSize st \<le> t"
      "length (Split chpt fieldSep) < 4"
    using that by (simp add: selectStep_guarded indexAt_def)
  have d: "selectStep counts i st chpt = Inl Panic"
    if "treeSizeField chpt = Inr t" "i \<le> lookup counts (Itoa t)" "maxTreeSize st \<le> t"
      "indexAt (Split chpt fieldSep) 3 = Inr field3" "CHR '':'' \<notin> set field3"
    using that by (simp add: selectStep_guarded Split_no_colon indexAt_def)
  from a b c d show ?thesis by blast
qed

section \<open>Whole cycles in a world without outside failures\<close>


lemma threshold_one: "quorumThreshold (\<lambda>x. x) (Suc 0) = 1"
proof -
  have "\<lfloor>5 / 4 :: rat\<rfloor> = 1" by linarith
  then show ?thesis by (simp add: quorumThreshold_def goRound_def toInt_def)
qed

lemma globResult_quiet: "globResult (quietWorld ms fs) = Inr ms"
  by (simp add: quietWorld_def)

lemma readLatestCheckpoints_quiet:
  assumes "fs m = Some (unlines ls)" "\<forall>l \<in> set ls. LF \<notin> set l \<and> dropCR l = l"
  shows "readLatestCheckpoints (quietWorld ms fs) m = Inr (drop (length ls - 2) ls)"
proof -
  have "scanLines (unlines ls) = map dropCR ls"
    using assms(2) by (intro scanLines_unlines) simp
  also have "\<dots> = ls"
    using assms(2) by (simp add: map_idI)
  finally have s: "scanLines (unlines ls) = ls" .
  have "osOpen (quietWorld ms fs) m = Inr (unlines ls)"
    using assms(1) by (simp add: osOpen_def quietWorld_def)
  moreover have "scanFault (quietWorld ms fs) m = None"
    by (simp add: quietWorld_def)
  ultimately show ?thesis
    by (simp add: readLatestCheckpoints_eq s)
qed

lemma deleteOldCheckpoints_ok:
  assumes "files w f = Some c" "openFault w f = None" "scanFault w f = None"
    "closeFault w f = None" "truncFault w f = None" "writeFault w f = None"
  shows "\<exists>w'. deleteOldCheckpoints w f = Inr w'"
  using assms
  by (simp add: deleteOldCheckpoints_def osOpen_def scanAll_def openTrunc_def writeFrom_eq)

lemma cycle_quiet:
  assumes "readAll (quietWorld ms fs) [] ms = Inr checkpoints"
    and "tallyOuter Map.empty checkpoints = Inr counts"
    and "selectOuter counts (quorumThreshold fl (length ms)) initSelection checkpoints = Inr st"
  shows "\<exists>w'. cycle fl (quietWorld ms fs) = Inr (w', st)"
proof -
  let ?w = "quietWorld ms fs"
  obtain w1 where o: "openAppend ?w AcceptedChptFile = Inr w1"
    by (simp add: openAppend_def quietWorld_def)
  let ?w2 = "Fprintln w1 AcceptedChptFile (latest_chpt st)"
  have q: "openFault ?w2 = (\<lambda>path. None)" "scanFault ?w2 = (\<lambda>path. None)"
    "closeFault ?w2 = (\<lambda>path. None)" "truncFault ?w2 = (\<lambda>path. None)"
    "writeFault ?w2 = (\<lambda>path. None)"
    using o
    by (auto simp: openAppend_def Fprintln_def WriteString_def quietWorld_def
        split: option.splits)
  obtain c where "files ?w2 AcceptedChptFile = Some c"
    using Fprintln_openAppend [OF o] by blast
  then obtain w' where "deleteOldCheckpoints ?w2 AcceptedChptFile = Inr w'"
    using deleteOldCheckpoints_ok [of ?w2 AcceptedChptFile c] by (auto simp: q)
  then show ?thesis
    using assms o by (simp add: cycle_def globResult_quiet)
qed

lemma cycle_tally_fails:
  assumes "globResult w = Inr ms" "readAll w [] ms = Inr checkpoints"
    "tallyOuter Map.empty checkpoints = Inl f"
  shows "cycle fl w = Inl f"
  using assms by (simp add: cycle_def)

lemma cycle_select_fails:
  assumes "globResult w = Inr ms" "readAll w [] ms = Inr checkpoints"
    "tallyOuter Map.empty checkpoints = Inr counts" "appendFault w AcceptedChptFile = None"
    "selectOuter counts (quorumThreshold fl (length ms)) initSelection checkpoints = Inl f"
  shows "cycle fl w = Inl f"
  using assms by (simp add: cycle_def openAppend_def)

lemma appendFault_quiet: "appendFault (quietWorld ms fs) path = None"
  by (simp add: quietWorld_def)

lemma no_sep: "\<forall>xs ys. ''checkpoint'' \<noteq> xs @ fieldSep @ ys"
proof (intro allI notI)
  fix xs ys assume "''checkpoint'' = xs @ fieldSep @ ys"
  then have "set ''checkpoint'' = set (xs @ fieldSep @ ys)" by (rule arg_cong)
  then have "CHR 0x5C \<in> set ''checkpoint''"
    by (simp add: fieldSep_def)
  then show False by simp
qed

theorem field_access_panics_witness:
  "(\<forall>xs ys. ''checkpoint'' \<noteq> xs @ fieldSep @ ys)
   \<and> tallyStep Map.empty ''checkpoint'' = Inl Panic
   \<and> cycle (\<lambda>x. x) (quietWorld [''logInfo0.txt'']
        ((\<lambda>path. None)(''logInfo0.txt'' \<mapsto> unlines [''checkpoint'']))) = Inl Panic
   \<and> treeSizeField (shortLine ''O'' ''5'') = Inr 5
   \<and> length (Split (shortLine ''O'' ''5'') fieldSep) < 4
   \<and> cycle (\<lambda>x. x) (quietWorld [''logInfo0.txt'']
        ((\<lambda>path. None)(''logInfo0.txt'' \<mapsto> unlines [shortLine ''O'' ''5'']))) = Inl Panic
   \<and> indexAt (Split (checkpointLine ''O'' ''5'' ''HASH'' ''timestamp 5000'') fieldSep) 3
        = Inr ''timestamp 5000''
   \<and> cycle (\<lambda>x. x) (quietWorld [''logInfo0.txt'']
        ((\<lambda>path. None)(''logInfo0.txt'' \<mapsto>
           unlines [checkpointLine ''O'' ''5'' ''HASH'' ''timestamp 5000'']))) = Inl Panic"
proof -
  let ?a = "''checkpoint''"
  let ?b = "shortLine ''O'' ''5''"
  let ?c = "checkpointLine ''O'' ''5'' ''HASH'' ''timestamp 5000''"
  let ?W = "\<lambda>l. quietWorld [''logInfo0.txt''] ((\<lambda>path. None)(''logInfo0.txt'' \<mapsto> unlines [l]))"
  let ?counts = "Map.empty(Itoa 5 \<mapsto> 1 :: int)"
  have clean: "LF \<notin> set ?a \<and> dropCR ?a = ?a" "LF \<notin> set ?b \<and> dropCR ?b = ?b"
    "LF \<notin> set ?c \<and> dropCR ?c = ?c"
    by (simp_all add: LF_def CR_def dropCR_def fieldSep_def checkpointLine_def shortLine_def)
  have r: "readAll (?W l) [] [''logInfo0.txt''] = Inr [[l]]"
    if "LF \<notin> set l \<and> dropCR l = l" for l
    using that readLatestCheckpoints_quiet [where ls = "[l]" and m = "''logInfo0.txt''"
        and ms = "[''logInfo0.txt'']" and fs = "(\<lambda>path. None)(''logInfo0.txt'' \<mapsto> unlines [l])"]
    by simp
  have tb: "treeSizeField ?b = Inr 5" and lb: "length (Split ?b fieldSep) < 4"
    by (simp_all add: eval_parse)
  have tc: "treeSizeField ?c = Inr 5"
    and ic: "indexAt (Split ?c fieldSep) 3 = Inr ''timestamp 5000''"
    by (simp_all add: eval_parse)
  have lk: "1 \<le> lookup ?counts (Itoa 5)" "maxTreeSize initSelection \<le> 5"
    by (simp_all add: lookup_def initSelection_def)
  note P1 = field_access_panics [of ?a "Map.empty" 1 initSelection 5 "[]"]
  note P2 = field_access_panics [of ?b ?counts 1 initSelection 5 "[]"]
  note P3 = field_access_panics [of ?c ?counts 1 initSelection 5 "''timestamp 5000''"]
  have a1: "tallyStep Map.empty ?a = Inl Panic"
    using P1 no_sep by blast
  have b1: "selectStep ?counts 1 initSelection ?b = Inl Panic"
    using P2 tb lb lk by blast
  have c1: "selectStep ?counts 1 initSelection ?c = Inl Panic"
    using P3 tc ic lk by simp
  have ca: "cycle (\<lambda>x. x) (?W ?a) = Inl Panic"
    by (rule cycle_tally_fails [OF globResult_quiet r [OF clean(1)]]) (simp add: a1)
  have cb: "cycle (\<lambda>x. x) (?W ?b) = Inl Panic"
    by (rule cycle_select_fails [OF globResult_quiet r [OF clean(2)] _ appendFault_quiet,
          where counts = ?counts])
      (simp_all add: tallyStep_treeSizeField tb lookup_def threshold_one b1)
  have cc: "cycle (\<lambda>x. x) (?W ?c) = Inl Panic"
    by (rule cycle_select_fails [OF globResult_quiet r [OF clean(3)] _ appendFault_quiet,
          where counts = ?counts])
      (simp_all add: tallyStep_treeSizeField tc lookup_def threshold_one c1)
  from no_sep a1 ca tb lb cb ic cc show ?thesis by blast
qed

section \<open>Parse failures\<close>


lemma tallyInner_fails:
  "chpt \<in> set chpts \<Longrightarrow> treeSizeField chpt = Inl f \<Longrightarrow> \<exists>f'. tallyInner counts chpts = Inl f'"
proof (induction chpts arbitrary: counts)
  case Nil
  then show ?case by simp
next
  case (Cons c chpts)
  show ?case
  proof (cases "treeSizeField c")
    case (Inl g)
    then show ?thesis by (simp add: tallyStep_treeSizeField)
  next
    case (Inr t)
    with Cons.prems have "chpt \<in> set chpts" by auto
    from Cons.IH [OF this Cons.prems(2)] Inr show ?thesis
      by (simp add: tallyStep_treeSizeField)
  qed
qed

lemma tallyOuter_fails:
  "chpt \<in> set (concat checkpoints) \<Longrightarrow> treeSizeField chpt = Inl f
     \<Longrightarrow> \<exists>f'. tallyOuter counts checkpoints = Inl f'"
proof (induction checkpoints arbitrary: counts)
  case Nil
  then show ?case by simp
next
  case (Cons chpts rest)
  show ?case
  proof (cases "tallyInner counts chpts")
    case (Inl g)
    then show ?thesis by simp
  next
    case (Inr counts')
    have "chpt \<notin> set chpts"
      using tallyInner_fails [of chpt chpts f counts] Cons.prems(2) Inr by auto
    with Cons.prems have "chpt \<in> set (concat rest)" by auto
    from Cons.IH [OF this Cons.prems(2)] Inr show ?thesis by simp
  qed
qed

text \<open>
  Claim C6. A checkpoint that passes the quorum test and whose time stamp does not
  parse makes the step succeed: the error is logged, the running maximum keeps the
  tree size of that checkpoint, the largest time stamp and the candidate are left as
  they were, and the scan goes on with the next checkpoint. A tree size that does not
  parse, on any line of the histories read, makes the cycle end in a failure.
\<close>

theorem timestamp_failure_skips:
  "(treeSizeField chpt = Inr t \<and> i \<le> lookup counts (Itoa t) \<and> maxTreeSize st \<le> t
      \<and> indexAt (Split chpt fieldSep) 3 = Inr field3
      \<and> indexAt (Split field3 '':'') 1 = Inr ts
      \<and> ParseInt (TrimSpace ts) = Inl err
    \<longrightarrow> selectStep counts i st chpt = Inr (st\<lparr>maxTreeSize := t, logged := logged st @ [err]\<rparr>)
        \<and> selectInner counts i st (chpt # chpts)
            = selectInner counts i (st\<lparr>maxTreeSize := t, logged := logged st @ [err]\<rparr>) chpts)
   \<and> (globResult w = Inr ms \<and> readAll w [] ms = Inr checkpoints
      \<and> bad \<in> set (concat checkpoints)
      \<and> indexAt (Split bad fieldSep) 1 = Inr field1 \<and> Atoi field1 = Inl err'
    \<longrightarrow> (\<exists>f. cycle fl w = Inl f))"
proof -
  have skip: "selectStep counts i st chpt
        = Inr (st\<lparr>maxTreeSize := t, logged := logged st @ [err]\<rparr>)"
    if "treeSizeField chpt = Inr t" "i \<le> lookup counts (Itoa t)" "maxTreeSize st \<le> t"
      "indexAt (Split chpt fieldSep) 3 = Inr field3" "indexAt (Split field3 '':'') 1 = Inr ts"
      "ParseInt (TrimSpace ts) = Inl err"
    unfolding selectStep_guarded [OF that(1,2,3)] that(4) using that(5,6) by simp
  have abort: "\<exists>f. cycle fl w = Inl f"
    if "globResult w = Inr ms" "readAll w [] ms = Inr checkpoints"
      "bad \<in> set (concat checkpoints)"
      "indexAt (Split bad fieldSep) 1 = Inr field1" "Atoi field1 = Inl err'"
  proof -
    have "treeSizeField bad = Inl (Fatal ''Converting tree size to int'' err')"
      unfolding treeSizeField_def that(4) using that(5) by simp
    from tallyOuter_fails [OF that(3) this]
    obtain f where "tallyOuter Map.empty checkpoints = Inl f" by blast
    from cycle_tally_fails [OF that(1,2) this] show ?thesis by blast
  qed
  from skip abort show ?thesis by simp
qed

lemma threshold_one': "quorumThreshold (\<lambda>x. x) (length [m]) = 1"
  using threshold_one by simp

theorem timestamp_failure_skips_witness:
  "(\<exists>w'. cycle (\<lambda>x. x) (quietWorld [''logInfo0.txt'']
        ((\<lambda>path. None)(''logInfo0.txt'' \<mapsto>
           unlines [checkpointLine ''O'' ''5'' ''HASH'' ''timestamp: soon''])))
      = Inr (w', \<lparr>maxTreeSize = 5, largestTimestamp = 0, latest_chpt = [],
                  logged = [ErrSyntax]\<rparr>))
   \<and> (\<exists>f. cycle (\<lambda>x. x) (quietWorld [''logInfo0.txt'']
        ((\<lambda>path. None)(''logInfo0.txt'' \<mapsto>
           unlines [checkpointLine ''O'' ''five'' ''HASH'' ''timestamp: 5000''])))
      = Inl f)"
proof -
  let ?c = "checkpointLine ''O'' ''5'' ''HASH'' ''timestamp: soon''"
  let ?d = "checkpointLine ''O'' ''five'' ''HASH'' ''timestamp: 5000''"
  let ?W = "\<lambda>l. quietWorld [''logInfo0.txt''] ((\<lambda>path. None)(''logInfo0.txt'' \<mapsto> unlines [l]))"
  let ?counts = "Map.empty(Itoa 5 \<mapsto> 1 :: int)"
  let ?st = "\<lparr>maxTreeSize = 5, largestTimestamp = 0, latest_chpt = [], logged = [ErrSyntax]\<rparr>"
  have clean: "LF \<notin> set ?c \<and> dropCR ?c = ?c" "LF \<notin> set ?d \<and> dropCR ?d = ?d"
    by (simp_all add: LF_def CR_def dropCR_def fieldSep_def checkpointLine_def)
  have r: "readAll (?W l) [] [''logInfo0.txt''] = Inr [[l]]"
    if "LF \<notin> set l \<and> dropCR l = l" for l
    using that readLatestCheckpoints_quiet [where ls = "[l]" and m = "''logInfo0.txt''"
        and ms = "[''logInfo0.txt'']" and fs = "(\<lambda>path. None)(''logInfo0.txt'' \<mapsto> unlines [l])"]
    by simp
  have tc: "treeSizeField ?c = Inr 5"
    and f3: "indexAt (Split ?c fieldSep) 3 = Inr ''timestamp: soon''"
    and ts: "indexAt (Split ''timestamp: soon'' '':'') 1 = Inr '' soon''"
    by (simp_all add: eval_parse)
  have tr: "TrimSpace '' soon'' = ''soon''"
    by (simp add: TrimSpace_def leadingSpace_def trailingSpace_def spaceRunes_def)
  have pe: "ParseInt (TrimSpace '' soon'') = Inl ErrSyntax"
    unfolding tr by (simp add: ParseInt_def isDigit_def)
  have lk: "1 \<le> lookup ?counts (Itoa 5)" "maxTreeSize initSelection \<le> 5"
    by (simp_all add: lookup_def initSelection_def)
  have d1: "indexAt (Split ?d fieldSep) 1 = Inr ''five''" and d2: "Atoi ''five'' = Inl ErrSyntax"
    by (simp_all add: eval_parse)
  note T1 = timestamp_failure_skips [of ?c 5 1 ?counts initSelection "''timestamp: soon''"
      "'' soon''" ErrSyntax "[]" "?W ?d" "[''logInfo0.txt'']" "[[?d]]" ?d "''five''" ErrSyntax
      "\<lambda>x. x"]
  have step: "selectStep ?counts 1 initSelection ?c = Inr ?st"
    using T1 tc lk f3 ts pe by (simp add: initSelection_def)
  have sel: "selectOuter ?counts (quorumThreshold (\<lambda>x. x) (length [''logInfo0.txt'']))
               initSelection [[?c]] = Inr ?st"
    unfolding threshold_one' by (simp add: step)
  have tal: "tallyOuter Map.empty [[?c]] = Inr ?counts"
    by (simp add: tallyStep_treeSizeField tc lookup_def)
  have A: "\<exists>w'. cycle (\<lambda>x. x) (?W ?c) = Inr (w', ?st)"
    by (rule cycle_quiet [OF r [OF clean(1)] tal sel])
  have B: "\<exists>f. cycle (\<lambda>x. x) (?W ?d) = Inl f"
    using T1 globResult_quiet r [OF clean(2)] d1 d2 by simp
  from A B show ?thesis by blast
qed

section \<open>The candidate when the running maximum grows\<close>


lemma threshold_two: "quorumThreshold (\<lambda>x. x) (Suc (Suc 0)) = 2"
proof -
  have "\<lfloor>2 :: rat\<rfloor> = 2" by linarith
  then show ?thesis by (simp add: quorumThreshold_def goRound_def toInt_def)
qed

lemma TrimSpace_5000: "TrimSpace '' 5000'' = ''5000''"
  by (simp add: TrimSpace_def leadingSpace_def trailingSpace_def spaceRunes_def)

lemma ParseInt_5000: "ParseInt ''5000'' = Inr 5000"
  by (simp add: ParseInt_def isDigit_def digitVal_def maxUint64_def)

text \<open>
  Claim C1 says that when two tree sizes both reach the threshold, the checkpoint
  appended has the larger one, whatever the time stamps. The scan does not do so:
  the largest time stamp is kept when the running maximum grows. Two monitors each
  hold a line of size 5 and then a line of size 9, all with the time stamp 5000; both
  sizes are counted twice and the threshold is 2. The running maximum ends at 9, and
  the line appended to the accepted log is the line of size 5.
\<close>

theorem larger_size_not_selected:
  "\<exists>w' counts.
     tallyOuter Map.empty
       [[checkpointLine ''O'' ''5'' ''HASH'' ''timestamp: 5000'',
         checkpointLine ''O'' ''9'' ''HASH'' ''timestamp: 5000''],
        [checkpointLine ''O'' ''5'' ''HASH'' ''timestamp: 5000'',
         checkpointLine ''O'' ''9'' ''HASH'' ''timestamp: 5000'']] = Inr counts
     \<and> quorumThreshold (\<lambda>x. x) 2 \<le> lookup counts (Itoa 5)
     \<and> quorumThreshold (\<lambda>x. x) 2 \<le> lookup counts (Itoa 9)
     \<and> cycle (\<lambda>x. x)
         (quietWorld [''logInfo0.txt'', ''logInfo1.txt'']
            ((\<lambda>path. None)
               (''logInfo0.txt'' \<mapsto>
                  unlines [checkpointLine ''O'' ''5'' ''HASH'' ''timestamp: 5000'',
                           checkpointLine ''O'' ''9'' ''HASH'' ''timestamp: 5000''],
                ''logInfo1.txt'' \<mapsto>
                  unlines [checkpointLine ''O'' ''5'' ''HASH'' ''timestamp: 5000'',
                           checkpointLine ''O'' ''9'' ''HASH'' ''timestamp: 5000''])))
       = Inr (w', \<lparr>maxTreeSize = 9, largestTimestamp = 5000,
                   latest_chpt = checkpointLine ''O'' ''5'' ''HASH'' ''timestamp: 5000'',
                   logged = []\<rparr>)
     \<and> files w' AcceptedChptFile
         = Some (unlines [checkpointLine ''O'' ''5'' ''HASH'' ''timestamp: 5000''])
     \<and> treeSizeField (checkpointLine ''O'' ''5'' ''HASH'' ''timestamp: 5000'') = Inr 5"
proof -
  let ?a = "checkpointLine ''O'' ''5'' ''HASH'' ''timestamp: 5000''"
  let ?b = "checkpointLine ''O'' ''9'' ''HASH'' ''timestamp: 5000''"
  let ?fs = "(\<lambda>path. None)(''logInfo0.txt'' \<mapsto> unlines [?a, ?b],
                ''logInfo1.txt'' \<mapsto> unlines [?a, ?b])"
  let ?ms = "[''logInfo0.txt'', ''logInfo1.txt'']"
  let ?W = "quietWorld ?ms ?fs"
  let ?counts = "Map.empty(Itoa 5 \<mapsto> 2 :: int, Itoa 9 \<mapsto> 2)"
  let ?st = "\<lparr>maxTreeSize = 9, largestTimestamp = 5000, latest_chpt = ?a, logged = []\<rparr>"
  have clean: "\<forall>l \<in> set [?a, ?b]. LF \<notin> set l \<and> dropCR l = l"
    by (simp add: LF_def CR_def dropCR_def fieldSep_def checkpointLine_def)
  have r0: "readLatestCheckpoints ?W ''logInfo0.txt'' = Inr [?a, ?b]"
    using readLatestCheckpoints_quiet [OF _ clean, of ?fs "''logInfo0.txt''" ?ms] by simp
  have r1: "readLatestCheckpoints ?W ''logInfo1.txt'' = Inr [?a, ?b]"
    using readLatestCheckpoints_quiet [OF _ clean, of ?fs "''logInfo1.txt''" ?ms] by simp
  have r: "readAll ?W [] ?ms = Inr [[?a, ?b], [?a, ?b]]"
    by (simp add: r0 r1)
  have ta: "treeSizeField ?a = Inr 5" and tb: "treeSizeField ?b = Inr 9"
    by (simp_all add: eval_parse)
  have fa: "indexAt (Split ?a fieldSep) 3 = Inr ''timestamp: 5000''"
    and fb: "indexAt (Split ?b fieldSep) 3 = Inr ''timestamp: 5000''"
    and ts: "indexAt (Split ''timestamp: 5000'' '':'') (Suc 0) = Inr '' 5000''"
    by (simp_all add: eval_parse)
  have tal: "tallyOuter Map.empty [[?a, ?b], [?a, ?b]] = Inr ?counts"
    by (simp add: tallyStep_treeSizeField ta tb lookup_def Itoa_inj fun_upd_twist)
  have lk: "lookup ?counts (Itoa 5) = 2" "lookup ?counts (Itoa 9) = 2"
    by (simp_all add: lookup_def Itoa_inj)
  note ga = selectStep_guarded [OF ta] and gb = selectStep_guarded [OF tb]
    and sa = selectStep_skip [OF ta]
  have s1: "selectStep ?counts 2 initSelection ?a
            = Inr \<lparr>maxTreeSize = 5, largestTimestamp = 5000, latest_chpt = ?a, logged = []\<rparr>"
    by (subst ga) (simp_all add: lk fa ts TrimSpace_5000 ParseInt_5000 initSelection_def)
  have s2: "selectStep ?counts 2
              \<lparr>maxTreeSize = 5, largestTimestamp = 5000, latest_chpt = ?a, logged = []\<rparr> ?b
            = Inr ?st"
    by (subst gb) (simp_all add: lk fb ts TrimSpace_5000 ParseInt_5000)
  have s3: "selectStep ?counts 2 ?st ?a = Inr ?st"
    by (rule sa) simp
  have s4: "selectStep ?counts 2 ?st ?b = Inr ?st"
    by (subst gb) (simp_all add: lk fb ts TrimSpace_5000 ParseInt_5000)
  have sel: "selectOuter ?counts (quorumThreshold (\<lambda>x. x) (length ?ms)) initSelection
               [[?a, ?b], [?a, ?b]] = Inr ?st"
    by (simp add: threshold_two s1 s2 s3 s4)
  obtain w' where c: "cycle (\<lambda>x. x) ?W = Inr (w', ?st)"
    using cycle_quiet [OF r tal sel] by blast
  have sc: "scanLines ([] @ ?a @ [LF]) = [?a]"
    using scanLines_line [of ?a "[]"] clean by simp
  have "contentOf ?W AcceptedChptFile = []" "writeFault ?W AcceptedChptFile = None"
    by (simp_all add: contentOf_def quietWorld_def AcceptedChptFile_def)
  then have f: "files w' AcceptedChptFile = Some (unlines [?a])"
    using cycle_accepted_log [OF c] sc by (auto simp: Let_def unlines_def)
  have th: "quorumThreshold (\<lambda>x. x) 2 = 2"
    using threshold_two by (simp add: numeral_2_eq_2)
  show ?thesis
    using tal lk c f ta th by (intro exI [of _ w'] exI [of _ ?counts]) simp
qed

section \<open>The interval of the loop\<close>


lemma mainLoop_slept:
  "mainLoop fl flags env fuel w slept = Inr (w', sl)
     \<Longrightarrow> sl = slept @ replicate fuel (flagValue flags ''interval'')"
proof (induction fuel arbitrary: w slept)
  case 0
  then show ?case by simp
next
  case (Suc fuel)
  from Suc.prems obtain w1 :: world where
    "mainLoop fl flags env fuel (env w1) (slept @ [flagValue flags ''interval'']) = Inr (w', sl)"
    by (auto split: sum.splits prod.splits)
  from Suc.IH [OF this] show ?case
    by (simp add: replicate_app_Cons_same)
qed

lemma main_sleeps_default:
  "main args fl env fuel w = Inr (w', sl) \<Longrightarrow> sl = replicate fuel Minute"
  using mainLoop_slept [of fl "flagDuration [] ''interval'' (1 * Minute)" env fuel w "[]" w' sl]
  by (simp add: main_def flagDuration_def flagValue_def)

text \<open>
  Claim C10 says that the sleep between two cycles is the duration given by the
  \<^verbatim>\<open>interval\<close> flag, and one minute without the flag. The program defines the flag
  and never calls \<^verbatim>\<open>flag.Parse\<close>, so the value it sleeps is the default, whatever the
  arguments (lemma \<open>main_sleeps_default\<close>). Started with \<^verbatim>\<open>-interval=5s\<close>, it sleeps
  one minute after the first cycle.
\<close>

theorem interval_flag_ignored:
  "\<exists>w'. main [''-interval=5s''] (\<lambda>x. x) (\<lambda>w. w) 1 (quietWorld [] (\<lambda>path. None))
          = Inr (w', [60 * 1000000000])"
proof -
  obtain w' where c: "cycle (\<lambda>x. x) (quietWorld [] (\<lambda>path. None)) = Inr (w', initSelection)"
    using cycle_quiet [of "[]" "\<lambda>path. None" "[]" Map.empty "\<lambda>x. x" initSelection] by auto
  have "main [''-interval=5s''] (\<lambda>x. x) (\<lambda>w. w) (Suc 0) (quietWorld [] (\<lambda>path. None))
          = Inr (w', [60 * 1000000000])"
    by (simp add: main_def c flagDuration_def flagValue_def Minute_def)
  then show ?thesis by auto
qed

section \<open>The monitor list and the cycle\<close>


lemma fillMonitors_map:
  "i + length ms \<le> length acc \<Longrightarrow>
     fillMonitors acc i ms = take i acc @ map Logfile ms @ drop (i + length ms) acc"
proof (induction ms arbitrary: acc i)
  case Nil
  then show ?case by simp
next
  case (Cons m ms)
  have "fillMonitors acc i (m # ms) = fillMonitors (acc[i := Logfile m]) (Suc i) ms"
    by simp
  also have "\<dots> = take (Suc i) (acc[i := Logfile m]) @ map Logfile ms
                     @ drop (Suc i + length ms) (acc[i := Logfile m])"
    using Cons.prems by (intro Cons.IH) simp
  also have "take (Suc i) (acc[i := Logfile m]) = take i acc @ [Logfile m]"
    using Cons.prems by (simp add: take_Suc_conv_app_nth)
  also have "drop (Suc i + length ms) (acc[i := Logfile m]) = drop (i + length (m # ms)) acc"
    by simp
  finally show ?case by simp
qed

lemma initMonitors_eq:
  "initMonitors unmarshal w path =
     (case ReadFile w path of
        Inl err \<Rightarrow> Inl err
      | Inr contents \<Rightarrow>
          (case unmarshal contents of
             Inl err \<Rightarrow> Inl err
           | Inr list \<Rightarrow> Inr (map Logfile list)))"
  by (simp add: initMonitors_def fillMonitors_map split: sum.splits)

lemma names_differ: "AcceptedChptFile \<noteq> MonitorList"
  by (simp add: AcceptedChptFile_def MonitorList_def)

lemma readLatestCheckpoints_withFile:
  "m \<noteq> p \<Longrightarrow> readLatestCheckpoints (withFile w p x) m = readLatestCheckpoints w m"
  by (simp add: readLatestCheckpoints_def osOpen_def scanAll_def withFile_def
      split: option.splits)

lemma readAll_withFile:
  "p \<notin> set ms \<Longrightarrow> readAll (withFile w p x) acc ms = readAll w acc ms"
  by (induction ms arbitrary: acc) (auto simp: readLatestCheckpoints_withFile split: sum.splits)

lemma openAppend_withFile:
  "f \<noteq> p \<Longrightarrow> openAppend (withFile w p x) f
                = map_sum id (\<lambda>w'. withFile w' p x) (openAppend w f)"
  by (auto simp: openAppend_def withFile_def fun_upd_twist split: option.splits)

lemma WriteString_withFile:
  "f \<noteq> p \<Longrightarrow> WriteString (withFile w p x) f s
                = map_sum id (\<lambda>w'. withFile w' p x) (WriteString w f s)"
  by (auto simp: WriteString_def withFile_def fun_upd_twist split: option.splits)

lemma Fprintln_withFile:
  "f \<noteq> p \<Longrightarrow> Fprintln (withFile w p x) f s = withFile (Fprintln w f s) p x"
  by (simp add: Fprintln_def WriteString_withFile split: sum.splits)

lemma writeFrom_withFile:
  "f \<noteq> p \<Longrightarrow> writeFrom (withFile w p x) f lines i
                = map_sum id (\<lambda>w'. withFile w' p x) (writeFrom w f lines i)"
  by (auto simp: writeFrom_eq withFile_def contentOf_def fun_upd_twist split: option.splits)

lemma openTrunc_withFile:
  "f \<noteq> p \<Longrightarrow> openTrunc (withFile w p x) f
                = map_sum id (\<lambda>w'. withFile w' p x) (openTrunc w f)"
  by (auto simp: openTrunc_def withFile_def fun_upd_twist split: option.splits)

lemma deleteOldCheckpoints_withFile:
  assumes "f \<noteq> p"
  shows "deleteOldCheckpoints (withFile w p x) f
           = map_sum id (\<lambda>w'. withFile w' p x) (deleteOldCheckpoints w f)"
proof -
  have o: "osOpen (withFile w p x) f = osOpen w f"
    using assms by (simp add: osOpen_def withFile_def split: option.splits)
  have s: "scanAll (withFile w p x) f c = scanAll w f c" for c
    by (simp add: scanAll_def withFile_def)
  have c: "closeFault (withFile w p x) f = closeFault w f"
    by (simp add: withFile_def)
  show ?thesis
    unfolding deleteOldCheckpoints_def o s c openTrunc_withFile [OF assms]
    by (auto simp: writeFrom_withFile [OF assms] split: sum.splits option.splits prod.splits)
qed

lemma cycle_withFile:
  assumes "globResult w = Inr monitors" "MonitorList \<notin> set monitors"
  shows "cycle fl (withFile w MonitorList x)
           = map_sum id (\<lambda>(w', st). (withFile w' MonitorList x, st)) (cycle fl w)"
proof -
  have g: "globResult (withFile w MonitorList x) = Inr monitors"
    using assms(1) by (simp add: withFile_def)
  show ?thesis
    unfolding cycle_def g assms(1) Let_def
    by (auto simp: readAll_withFile [OF assms(2)] openAppend_withFile [OF names_differ]
        Fprintln_withFile [OF names_differ] deleteOldCheckpoints_withFile [OF names_differ]
        split: sum.splits)
qed

text \<open>
  Claim C9 says that the discovery of the cycle can be driven by the monitor list.
  It cannot: \<open>main\<close> never calls \<open>initMonitors\<close>, and the cycle takes its monitors
  from the glob alone. As amended: replacing or removing \<^verbatim>\<open>monitor_list.json\<close> (a name
  the glob does not return) changes nothing in a cycle but that file itself; and
  \<open>initMonitors\<close>, called on a path, returns in order the log file of each entry of
  the decoded list, and fails exactly when the file cannot be read or the decoding
  fails.
\<close>

theorem monitor_list_not_consulted:
  assumes "globResult w = Inr monitors" and "MonitorList \<notin> set monitors"
  shows "cycle fl (withFile w MonitorList x)
           = map_sum id (\<lambda>(w', st). (withFile w' MonitorList x, st)) (cycle fl w)
     \<and> initMonitors unmarshal w path =
         (case ReadFile w path of
            Inl err \<Rightarrow> Inl err
          | Inr contents \<Rightarrow>
              (case unmarshal contents of
                 Inl err \<Rightarrow> Inl err
               | Inr list \<Rightarrow> Inr (map Logfile list)))
     \<and> ((\<exists>err. initMonitors unmarshal w path = Inl err) \<longleftrightarrow>
          (\<exists>err. ReadFile w path = Inl err)
          \<or> (\<exists>contents err. ReadFile w path = Inr contents \<and> unmarshal contents = Inl err))"
proof -
  have "(\<exists>err. initMonitors unmarshal w path = Inl err) \<longleftrightarrow>
          (\<exists>err. ReadFile w path = Inl err)
          \<or> (\<exists>contents err. ReadFile w path = Inr contents \<and> unmarshal contents = Inl err)"
    unfolding initMonitors_eq by (auto split: sum.splits)
  then show ?thesis
    using cycle_withFile [OF assms] initMonitors_eq by blast
qed

lemma ReadFile_example:
  "ReadFile (quietWorld ms exampleFiles) MonitorList = Inr exampleListText"
  by (simp add: ReadFile_def osOpen_def quietWorld_def exampleFiles_def MonitorList_def)

lemma initMonitors_example:
  "initMonitors exampleDecoder (quietWorld ms exampleFiles) MonitorList = Inr [''mon.txt'']"
  by (simp add: initMonitors_eq ReadFile_example exampleDecoder_def)

lemma cycle_example_glob:
  "appendedLine (cycle (\<lambda>x. x) (quietWorld [] exampleFiles)) = Inr []"
proof -
  obtain w' where "cycle (\<lambda>x. x) (quietWorld [] exampleFiles) = Inr (w', initSelection)"
    using cycle_quiet [of "[]" exampleFiles "[]" Map.empty "\<lambda>x. x" initSelection] by auto
  then show ?thesis by (simp add: appendedLine_def initSelection_def)
qed

lemma cycle_example_listed:
  "appendedLine (cycle (\<lambda>x. x) (quietWorld [''mon.txt''] exampleFiles))
     = Inr (checkpointLine ''O'' ''100'' ''HASH'' ''timestamp: 5000'')"
proof -
  let ?a = "checkpointLine ''O'' ''100'' ''HASH'' ''timestamp: 5000''"
  let ?W = "quietWorld [''mon.txt''] exampleFiles"
  let ?counts = "Map.empty(Itoa 100 \<mapsto> 1 :: int)"
  let ?st = "\<lparr>maxTreeSize = 100, largestTimestamp = 5000, latest_chpt = ?a, logged = []\<rparr>"
  have clean: "\<forall>l \<in> set [?a]. LF \<notin> set l \<and> dropCR l = l"
    by (simp add: LF_def CR_def dropCR_def fieldSep_def checkpointLine_def)
  have ef: "exampleFiles ''mon.txt'' = Some (unlines [?a])"
    by (simp add: exampleFiles_def)
  have r: "readAll ?W [] [''mon.txt''] = Inr [[?a]]"
    using readLatestCheckpoints_quiet [where fs = exampleFiles and m = "''mon.txt''"
        and ls = "[?a]" and ms = "[''mon.txt'']", OF ef clean]
    by simp
  have fa: "indexAt (Split ?a fieldSep) 3 = Inr ''timestamp: 5000''"
    and ts: "indexAt (Split ''timestamp: 5000'' '':'') (Suc 0) = Inr '' 5000''"
    by (simp_all add: eval_parse)
  have tal: "tallyOuter Map.empty [[?a]] = Inr ?counts"
    by (simp add: tallyStep_treeSizeField tsf100 lookup_def)
  have s1: "selectStep ?counts 1 initSelection ?a = Inr ?st"
    by (subst selectStep_guarded [OF tsf100])
      (simp_all add: lookup_def fa ts TrimSpace_5000 ParseInt_5000 initSelection_def)
  have sel: "selectOuter ?counts (quorumThreshold (\<lambda>x. x) (length [''mon.txt'']))
               initSelection [[?a]] = Inr ?st"
    unfolding threshold_one' by (simp add: s1)
  obtain w' where "cycle (\<lambda>x. x) ?W = Inr (w', ?st)"
    using cycle_quiet [OF r tal sel] by blast
  then show ?thesis by (simp add: appendedLine_def)
qed

text \<open>
  The claim as first stated fails in the world where the list names \<^verbatim>\<open>mon.txt\<close>, which
  holds a checkpoint, and no file matches the glob: \<open>initMonitors\<close> would give
  \<^verbatim>\<open>mon.txt\<close>, the cycle selects nothing, and a cycle whose monitors were those of the
  list would select the checkpoint.
\<close>

theorem monitor_list_discovery_counterexample:
  "initMonitors exampleDecoder (quietWorld [] exampleFiles) MonitorList = Inr [''mon.txt'']
   \<and> appendedLine (cycle (\<lambda>x. x) (quietWorld [] exampleFiles)) = Inr []
   \<and> appendedLine (cycle (\<lambda>x. x) (quietWorld [''mon.txt''] exampleFiles))
       = Inr (checkpointLine ''O'' ''100'' ''HASH'' ''timestamp: 5000'')
   \<and> checkpointLine ''O'' ''100'' ''HASH'' ''timestamp: 5000'' \<noteq> []"
  using initMonitors_example cycle_example_glob cycle_example_listed
  by (simp add: checkpointLine_def)

theorem monitor_list_not_consulted_witness:
  "globResult (quietWorld [] exampleFiles) = Inr []
   \<and> MonitorList \<notin> set []
   \<and> appendedLine (cycle (\<lambda>x. x) (withFile (quietWorld [] exampleFiles) MonitorList None))
       = appendedLine (cycle (\<lambda>x. x) (quietWorld [] exampleFiles))
   \<and> initMonitors exampleDecoder (quietWorld [] exampleFiles) MonitorList = Inr [''mon.txt'']
   \<and> initMonitors exampleDecoder (quietWorld [] exampleFiles) ''mon.txt'' = Inl ErrJSON
   \<and> initMonitors exampleDecoder (quietWorld [] exampleFiles) ''absent.json'' = Inl ErrNotExist"
proof -
  have g: "globResult (quietWorld [] exampleFiles) = Inr []"
    by (rule globResult_quiet)
  have n: "MonitorList \<notin> set []" by simp
  note T = monitor_list_not_consulted [OF g n, of "\<lambda>x. x" None exampleDecoder]
  have a: "appendedLine (cycle (\<lambda>x. x) (withFile (quietWorld [] exampleFiles) MonitorList None))
       = appendedLine (cycle (\<lambda>x. x) (quietWorld [] exampleFiles))"
    using T [of MonitorList]
    by (cases "cycle (\<lambda>x. x) (quietWorld [] exampleFiles)") (auto simp: appendedLine_def)
  have r1: "ReadFile (quietWorld [] exampleFiles) ''mon.txt''
            = Inr (unlines [checkpointLine ''O'' ''100'' ''HASH'' ''timestamp: 5000''])"
    by (simp add: ReadFile_def osOpen_def quietWorld_def exampleFiles_def)
  have ne: "unlines [checkpointLine ''O'' ''100'' ''HASH'' ''timestamp: 5000''] \<noteq> exampleListText"
    by (simp add: unlines_def checkpointLine_def exampleListText_def quoted_def)
  have r2: "ReadFile (quietWorld [] exampleFiles) ''absent.json'' = Inl ErrNotExist"
    by (simp add: ReadFile_def osOpen_def quietWorld_def exampleFiles_def MonitorList_def)
  have b: "initMonitors exampleDecoder (quietWorld [] exampleFiles) MonitorList = Inr [''mon.txt'']"
    using T [of MonitorList] by (simp add: ReadFile_example exampleDecoder_def)
  have c: "initMonitors exampleDecoder (quietWorld [] exampleFiles) ''mon.txt'' = Inl ErrJSON"
    using T [of "''mon.txt''"] by (simp add: r1 exampleDecoder_def ne)
  have d: "initMonitors exampleDecoder (quietWorld [] exampleFiles) ''absent.json'' = Inl ErrNotExist"
    using T [of "''absent.json''"] by (simp add: r2)
  from g n a b c d show ?thesis by blast
qed

section \<open>The lines of a monitor log\<close>


lemma scanLines_tail:
  "LF \<notin> set rest \<Longrightarrow> scanLines rest = (if rest = [] then [] else [dropCR rest])"
proof (cases rest)
  case Nil
  then show ?thesis by simp
next
  case (Cons c cs)
  assume a: "LF \<notin> set rest"
  have tw: "takeWhile (\<lambda>x. x \<noteq> LF) (c # cs) = c # cs"
    using a Cons by (intro takeWhile_eq_all_conv [THEN iffD2]) auto
  have dw: "dropWhile (\<lambda>x. x \<noteq> LF) (c # cs) = []"
    using a Cons by (intro dropWhile_eq_Nil_conv [THEN iffD2]) auto
  have "scanLines (c # cs) =
        dropCR (takeWhile (\<lambda>x. x \<noteq> LF) (c # cs))
          # scanLines (drop 1 (dropWhile (\<lambda>x. x \<noteq> LF) (c # cs)))"
    by (rule scanLines.simps(2))
  then show ?thesis
    unfolding tw dw using Cons by simp
qed

lemma scanLines_unlines_tail:
  assumes "\<forall>l \<in> set ls. LF \<notin> set l" and "LF \<notin> set rest"
  shows "scanLines (unlines ls @ rest) = map dropCR (ls @ (if rest = [] then [] else [rest]))"
  using assms(1)
proof (induction ls)
  case Nil
  then show ?case using scanLines_tail [OF assms(2)] by (simp add: unlines_def)
next
  case (Cons l ls)
  have "unlines (l # ls) @ rest = l @ LF # (unlines ls @ rest)"
    by (simp add: unlines_def)
  then show ?case using Cons by (simp add: scanLines_line)
qed

text \<open>
  Claim C7. Every file content is some lines \<open>ls\<close>, each free of newlines and
  followed by a newline, and then a rest \<open>rest\<close> with no newline, which is one more
  line when it is not empty. On a file with these bytes that opens and scans without
  error, \<open>readLatestCheckpoints\<close> returns the last \<open>min n 2\<close> of the \<open>n\<close> lines, in
  file order, each without the one carriage return that may end it. It returns an
  error exactly when the file does not exist or cannot be opened, or the scanner
  stops with an error.
\<close>

theorem readLatestCheckpoints_last_two:
  "((\<exists>err. readLatestCheckpoints w filename = Inl err) \<longleftrightarrow>
      files w filename = None \<or> (\<exists>err. openFault w filename = Some err)
      \<or> (\<exists>k err. scanFault w filename = Some (k, err)))
   \<and> (files w filename = Some (unlines ls @ rest)
        \<and> (\<forall>l \<in> set ls. LF \<notin> set l) \<and> LF \<notin> set rest
        \<and> openFault w filename = None \<and> scanFault w filename = None
      \<longrightarrow> (let lines = ls @ (if rest = [] then [] else [rest]); n = length lines
           in readLatestCheckpoints w filename
                = Inr (map dropCR (drop (n - min n 2) lines))
            \<and> (\<exists>chpts. readLatestCheckpoints w filename = Inr chpts
                        \<and> length chpts = min n 2)))"
proof -
  have two: "n - min n 2 = n - 2" for n :: nat
    by (simp add: min_def)
  have err: "(\<exists>err. readLatestCheckpoints w filename = Inl err) \<longleftrightarrow>
      files w filename = None \<or> (\<exists>err. openFault w filename = Some err)
      \<or> (\<exists>k err. scanFault w filename = Some (k, err))"
    unfolding readLatestCheckpoints_eq [of w filename] osOpen_def
    by (auto split: sum.splits option.splits prod.splits)
  have ok: "readLatestCheckpoints w filename
              = Inr (map dropCR (drop (length (ls @ (if rest = [] then [] else [rest])) - 2)
                      (ls @ (if rest = [] then [] else [rest]))))"
    if "files w filename = Some (unlines ls @ rest)" "\<forall>l \<in> set ls. LF \<notin> set l"
      "LF \<notin> set rest" "openFault w filename = None" "scanFault w filename = None"
  proof -
    let ?lines = "ls @ (if rest = [] then [] else [rest])"
    have o: "osOpen w filename = Inr (unlines ls @ rest)"
      using that(1,4) by (simp add: osOpen_def)
    have sl: "scanLines (unlines ls @ rest) = map dropCR ?lines"
      by (rule scanLines_unlines_tail [OF that(2,3)])
    have "readLatestCheckpoints w filename
            = Inr (drop (length (scanLines (unlines ls @ rest)) - 2)
                     (scanLines (unlines ls @ rest)))"
      unfolding readLatestCheckpoints_eq [of w filename] o using that(5) by simp
    also have "\<dots> = Inr (map dropCR (drop (length ?lines - 2) ?lines))"
      unfolding sl by (simp only: length_map drop_map)
    finally show ?thesis .
  qed
  show ?thesis
    unfolding Let_def two using err ok by (auto simp: min_def)
qed

theorem readLatestCheckpoints_last_two_witness:
  "readLatestCheckpoints
     (quietWorld [] ((\<lambda>path. None)(''logInfo0.txt'' \<mapsto>
        ''a'' @ [LF] @ ''b'' @ [LF] @ ''c'' @ [LF] @ ''d'' @ [LF] @ ''e'' @ [LF])))
     ''logInfo0.txt'' = Inr [''d'', ''e'']
   \<and> readLatestCheckpoints
     (quietWorld [] ((\<lambda>path. None)(''logInfo0.txt'' \<mapsto> ''x'' @ [CR, LF] @ ''y'')))
     ''logInfo0.txt'' = Inr [''x'', ''y'']
   \<and> readLatestCheckpoints
     (quietWorld [] ((\<lambda>path. None)(''logInfo0.txt'' \<mapsto> ''only'' @ [LF])))
     ''logInfo0.txt'' = Inr [''only'']
   \<and> readLatestCheckpoints
     (quietWorld [] ((\<lambda>path. None)(''logInfo0.txt'' \<mapsto> [])))
     ''logInfo0.txt'' = Inr []
   \<and> (\<exists>err. readLatestCheckpoints (quietWorld [] (\<lambda>path. None)) ''logInfo0.txt'' = Inl err)
   \<and> (\<exists>err. readLatestCheckpoints
         ((quietWorld [] ((\<lambda>path. None)(''logInfo0.txt'' \<mapsto> ''a'' @ [LF] @ ''b'' @ [LF])))
            \<lparr>scanFault := (\<lambda>path. Some (1, ErrTooLong))\<rparr>)
         ''logInfo0.txt'' = Inl err)"
proof -
  let ?f = "''logInfo0.txt''"
  let ?W = "\<lambda>bytes. quietWorld [] ((\<lambda>path. None)(?f \<mapsto> bytes))"
  have q: "files (?W bytes) ?f = Some bytes" "openFault (?W bytes) ?f = None"
    "scanFault (?W bytes) ?f = None" for bytes
    by (simp_all add: quietWorld_def)
  have A: "readLatestCheckpoints
             (?W (''a'' @ [LF] @ ''b'' @ [LF] @ ''c'' @ [LF] @ ''d'' @ [LF] @ ''e'' @ [LF])) ?f
           = Inr [''d'', ''e'']"
    using readLatestCheckpoints_last_two
      [of "?W (''a'' @ [LF] @ ''b'' @ [LF] @ ''c'' @ [LF] @ ''d'' @ [LF] @ ''e'' @ [LF])" ?f
        "[''a'', ''b'', ''c'', ''d'', ''e'']" "[]"]
    by (simp add: q unlines_def LF_def CR_def dropCR_def)
  have B: "readLatestCheckpoints (?W (''x'' @ [CR, LF] @ ''y'')) ?f = Inr [''x'', ''y'']"
    using readLatestCheckpoints_last_two
      [of "?W (''x'' @ [CR, LF] @ ''y'')" ?f "[''x'' @ [CR]]" "''y''"]
    by (simp add: q unlines_def LF_def CR_def dropCR_def)
  have C: "readLatestCheckpoints (?W (''only'' @ [LF])) ?f = Inr [''only'']"
    using readLatestCheckpoints_last_two [of "?W (''only'' @ [LF])" ?f "[''only'']" "[]"]
    by (simp add: q unlines_def LF_def CR_def dropCR_def)
  have D: "readLatestCheckpoints (?W []) ?f = Inr []"
    using readLatestCheckpoints_last_two [of "?W []" ?f "[]" "[]"]
    by (simp add: q unlines_def)
  have E: "\<exists>err. readLatestCheckpoints (quietWorld [] (\<lambda>path. None)) ?f = Inl err"
    using readLatestCheckpoints_last_two [of "quietWorld [] (\<lambda>path. None)" ?f "[]" "[]"]
    by (simp add: quietWorld_def)
  have F: "\<exists>err. readLatestCheckpoints
         ((?W (''a'' @ [LF] @ ''b'' @ [LF]))\<lparr>scanFault := (\<lambda>path. Some (1, ErrTooLong))\<rparr>)
         ?f = Inl err"
    using readLatestCheckpoints_last_two
      [of "(?W (''a'' @ [LF] @ ''b'' @ [LF]))\<lparr>scanFault := (\<lambda>path. Some (1, ErrTooLong))\<rparr>"
        ?f "[]" "[]"]
    by simp
  from A B C D E F show ?thesis by blast
qed

end
